theory Spec2Isabelle
  imports Complex_Main "HOL-Library.Multiset"
begin

section \<open>Batched subset sums and linear combinations (multicombs.py)\<close>

text \<open>
  The three functions of \<^verbatim>\<open>multicombs.py\<close> are embedded as HOL functions:
  \<^verbatim>\<open>multisubset\<close> (greedy pairwise solver), \<^verbatim>\<open>multisubset2\<close> (partitioned power-set
  solver) and \<^verbatim>\<open>lincomb\<close> (reduction of a linear combination to subset sums).

  Data. Group elements are values of an arbitrary type \<open>'a\<close>; the adder and the zero are
  parameters, as in the source. An index is a position, a natural number. A Python
  \<^verbatim>\<open>set\<close> of indices is a HOL set. A Python \<^verbatim>\<open>dict\<close> is an association list in
  insertion order, which is the order in which Python iterates it. A factor is a Python
  integer, an \<open>int\<close>.

  Effects. The local variables \<^verbatim>\<open>numbers\<close>, \<^verbatim>\<open>subsets\<close> and \<^verbatim>\<open>output\<close> that the
  source mutates are passed explicitly as a triple. A raised exception is a value
  \<open>Inl e\<close>.
\<close>

datatype error = ValueError | IndexError | TypeError

type_synonym subset_dict = "(nat \<times> nat set) list"

type_synonym pair_dict = "((nat \<times> nat) \<times> nat) list"

type_synonym 'a state = "'a list \<times> subset_dict \<times> 'a list"

subsection \<open>Iteration order of a set\<close>

text \<open>
  Python leaves the order in which \<^verbatim>\<open>for x in subset\<close> visits the members of a set
  unspecified. The embedding takes that order as a parameter \<open>enum\<close>, a function that
  lists the members of a set; \<open>set_order enum\<close> says that it lists each member of a
  finite set exactly once. Every theorem about \<^verbatim>\<open>multisubset\<close> holds for every such
  order. \<open>sorted_list_of_set\<close> is one.
\<close>

definition set_order :: "(nat set \<Rightarrow> nat list) \<Rightarrow> bool" where
  "set_order enum \<longleftrightarrow> (\<forall>S. finite S \<longrightarrow> set (enum S) = S \<and> distinct (enum S))"

subsection \<open>The adder\<close>

text \<open>
  The spec's additive group abstraction: the adder is associative and commutative and
  \<open>zero\<close> is its identity.
\<close>

definition group_adder :: "('a \<Rightarrow> 'a \<Rightarrow> 'a) \<Rightarrow> 'a \<Rightarrow> bool" where
  "group_adder adder zero \<longleftrightarrow>
     (\<forall>x y z. adder (adder x y) z = adder x (adder y z)) \<and>
     (\<forall>x y. adder x y = adder y x) \<and>
     (\<forall>x. adder zero x = x)"

text \<open>
  The naive reference of the tests, \<^verbatim>\<open>sum([numbers[x] for x in subset])\<close>: the adder
  folded from \<open>zero\<close> over the elements at the given indices.
\<close>

definition adder_fold :: "('a \<Rightarrow> 'a \<Rightarrow> 'a) \<Rightarrow> 'a \<Rightarrow> 'a list \<Rightarrow> 'a" where
  "adder_fold adder zero xs = foldl adder zero xs"

definition subset_sum :: "('a \<Rightarrow> 'a \<Rightarrow> 'a) \<Rightarrow> 'a \<Rightarrow> 'a list \<Rightarrow> nat set \<Rightarrow> 'a" where
  "subset_sum adder zero numbers sub =
     adder_fold adder zero (map (\<lambda>x. numbers ! x) (sorted_list_of_set sub))"

subsection \<open>\<^verbatim>\<open>multisubset\<close>\<close>

text \<open>
  \<^verbatim>\<open>int(math.log(n))\<close> for \<open>n \<ge> 1\<close>: the integer part of the natural logarithm.
  \<^verbatim>\<open>math.log(0)\<close> raises \<^verbatim>\<open>ValueError\<close> (math domain error); the callers below test
  for it.
\<close>

definition int_log :: "nat \<Rightarrow> nat" where
  "int_log n = nat \<lfloor>ln (real n)\<rfloor>"

text \<open>
  \<^verbatim>\<open>pair_count[(x, y)] = pair_count.get((x, y), 0) + 1\<close>: a key already present keeps
  its place in the dictionary, a new key goes to the end.
\<close>

fun bump :: "pair_dict \<Rightarrow> nat \<times> nat \<Rightarrow> pair_dict" where
  "bump [] p = [(p, 1)]"
| "bump ((q, c) # pair_count) p =
     (if q = p then (q, c + 1) # pair_count else (q, c) # bump pair_count p)"

text \<open>
  \<^verbatim>\<open>for x in subset: for y in subset: if y > x: ...\<close>, on the members of one subset
  in their iteration order.
\<close>

definition count_subset :: "nat list \<Rightarrow> pair_dict \<Rightarrow> pair_dict" where
  "count_subset members pair_count =
     fold (\<lambda>x. fold (\<lambda>y pc. if y > x then bump pc (x, y) else pc) members) members pair_count"

definition count_pairs :: "(nat set \<Rightarrow> nat list) \<Rightarrow> subset_dict \<Rightarrow> pair_dict" where
  "count_pairs enum subsets =
     fold (\<lambda>(index, sub). count_subset (enum sub)) subsets []"

text \<open>
  \<^verbatim>\<open>sorted(pair_count.keys(), key=lambda el: pair_count[el], reverse=True)\<close>: Python's sort
  is stable, also with \<^verbatim>\<open>reverse=True\<close>, so it is the stable sort by descending count;
  then the slice \<^verbatim>\<open>[:len(numbers)*int(math.log(len(numbers)))]\<close>.
\<close>

definition pairs_by_count_of :: "nat \<Rightarrow> pair_dict \<Rightarrow> (nat \<times> nat) list" where
  "pairs_by_count_of n pair_count =
     take (n * int_log n) (map fst (sort_key (\<lambda>(el, c). - int c) pair_count))"

text \<open>
  The exit branch: \<^verbatim>\<open>for index in subset: output[key] = adder(output[key], numbers[index])\<close>.
  Reading \<^verbatim>\<open>numbers[index]\<close> out of range raises \<^verbatim>\<open>IndexError\<close>.
\<close>

fun add_indices ::
  "('a \<Rightarrow> 'a \<Rightarrow> 'a) \<Rightarrow> 'a list \<Rightarrow> nat \<Rightarrow> nat list \<Rightarrow> 'a list \<Rightarrow> error + 'a list" where
  "add_indices adder numbers key [] output = Inr output"
| "add_indices adder numbers key (index # rest) output =
     (if index < length numbers
      then add_indices adder numbers key rest
             (output[key := adder (output ! key) (numbers ! index)])
      else Inl IndexError)"

fun finish ::
  "(nat set \<Rightarrow> nat list) \<Rightarrow> ('a \<Rightarrow> 'a \<Rightarrow> 'a) \<Rightarrow> 'a list \<Rightarrow> subset_dict \<Rightarrow> 'a list
     \<Rightarrow> error + 'a list" where
  "finish enum adder numbers [] output = Inr output"
| "finish enum adder numbers ((key, sub) # rest) output =
     (case add_indices adder numbers key (enum sub) output of
        Inl e \<Rightarrow> Inl e
      | Inr output' \<Rightarrow> finish enum adder numbers rest output')"

text \<open>
  The rewrite of the subsets for one merged pair,
  \<^verbatim>\<open>for key, subset in list(subsets.items())\<close>: \<open>new\<close> is the index of the appended sum,
  \<^verbatim>\<open>len(numbers)-1\<close>, and \<open>v\<close> its value, \<^verbatim>\<open>numbers[-1]\<close>. A subset that becomes empty is
  deleted from the dictionary and its output is set. The keys are the positions
  \<open>0 ..< len(output)\<close> given by \<^verbatim>\<open>enumerate\<close>, so \<^verbatim>\<open>output[key]\<close> is in range.
\<close>

fun rewrite ::
  "nat \<Rightarrow> nat \<Rightarrow> nat \<Rightarrow> 'a \<Rightarrow> subset_dict \<Rightarrow> 'a list \<Rightarrow> subset_dict \<times> 'a list" where
  "rewrite maxx maxy new v [] output = ([], output)"
| "rewrite maxx maxy new v ((key, sub) # rest) output =
     (if maxx \<in> sub \<and> maxy \<in> sub then
        (let sub' = sub - {maxx} - {maxy} in
         if sub' = {} then rewrite maxx maxy new v rest (output[key := v])
         else (case rewrite maxx maxy new v rest output of
                 (rest', output') \<Rightarrow> ((key, insert new sub') # rest', output')))
      else (case rewrite maxx maxy new v rest output of
              (rest', output') \<Rightarrow> ((key, sub) # rest', output')))"

text \<open>
  \<^verbatim>\<open>for maxx, maxy in pairs_by_count\<close>, with the set \<^verbatim>\<open>used\<close>.
  \<^verbatim>\<open>numbers[maxx]\<close> and \<^verbatim>\<open>numbers[maxy]\<close> raise \<^verbatim>\<open>IndexError\<close> out of range.
\<close>

fun merge_pairs ::
  "('a \<Rightarrow> 'a \<Rightarrow> 'a) \<Rightarrow> (nat \<times> nat) list \<Rightarrow> nat set \<Rightarrow> 'a state \<Rightarrow> error + 'a state" where
  "merge_pairs adder [] used s = Inr s"
| "merge_pairs adder ((maxx, maxy) # pairs) used (numbers, subsets, output) =
     (if maxx \<in> used \<or> maxy \<in> used
      then merge_pairs adder pairs used (numbers, subsets, output)
      else if maxx < length numbers \<and> maxy < length numbers then
        (let v = adder (numbers ! maxx) (numbers ! maxy);
             numbers' = numbers @ [v]
         in case rewrite maxx maxy (length numbers' - 1) v subsets output of
              (subsets', output') \<Rightarrow>
                merge_pairs adder pairs (insert maxx (insert maxy used))
                  (numbers', subsets', output'))
      else Inl IndexError)"

text \<open>
  \<^verbatim>\<open>for roundcount in range(9999999)\<close>. A round that finds no pair returns the output
  (\<open>Inr (Some output)\<close>). When the range is exhausted the Python function falls off its
  end and returns \<^verbatim>\<open>None\<close> (\<open>Inr None\<close>).
\<close>

function rounds ::
  "(nat set \<Rightarrow> nat list) \<Rightarrow> ('a \<Rightarrow> 'a \<Rightarrow> 'a) \<Rightarrow> nat \<Rightarrow> 'a state \<Rightarrow> error + 'a list option" where
  "rounds enum adder roundcount (numbers, subsets, output) =
     (if roundcount \<ge> 9999999 then Inr None
      else if length numbers = 0 then Inl ValueError
      else
        (let pairs_by_count = pairs_by_count_of (length numbers) (count_pairs enum subsets) in
         if length pairs_by_count = 0 then
           (case finish enum adder numbers subsets output of
              Inl e \<Rightarrow> Inl e
            | Inr output' \<Rightarrow> Inr (Some output'))
         else
           (case merge_pairs adder pairs_by_count {} (numbers, subsets, output) of
              Inl e \<Rightarrow> Inl e
            | Inr s' \<Rightarrow> rounds enum adder (roundcount + 1) s')))"
  by pat_completeness auto
termination
  by (relation "measure (\<lambda>(enum, adder, roundcount, s). 9999999 - roundcount)") auto

declare rounds.simps [simp del]

definition multisubset ::
  "(nat set \<Rightarrow> nat list) \<Rightarrow> 'a list \<Rightarrow> nat set list \<Rightarrow> ('a \<Rightarrow> 'a \<Rightarrow> 'a) \<Rightarrow> 'a
     \<Rightarrow> error + 'a list option" where
  "multisubset enum numbers subsets adder zero =
     rounds enum adder 0
       (numbers, zip [0..<length subsets] subsets, replicate (length subsets) zero)"

subsection \<open>\<^verbatim>\<open>multisubset2\<close>\<close>

text \<open>
  \<^verbatim>\<open>while len(numbers) % partition_size != 0: numbers.append(zero)\<close>. The partition size
  is \<open>1 + int(math.log(len(subsets) + 1))\<close>, so it is never zero and the modulus is
  defined.
\<close>

function pad_numbers :: "nat \<Rightarrow> 'a \<Rightarrow> 'a list \<Rightarrow> 'a list" where
  "pad_numbers partition_size zero numbers =
     (if partition_size \<noteq> 0 \<and> length numbers mod partition_size \<noteq> 0
      then pad_numbers partition_size zero (numbers @ [zero])
      else numbers)"
  by pat_completeness auto
termination
proof (relation "measure (\<lambda>(partition_size, zero, numbers).
                   (partition_size - length numbers mod partition_size) mod partition_size)")
  show "wf (measure (\<lambda>(partition_size, zero :: 'a, numbers :: 'a list).
                   (partition_size - length numbers mod partition_size) mod partition_size))"
    by simp
next
  fix partition_size :: nat and zero :: 'a and numbers :: "'a list"
  assume a: "partition_size \<noteq> 0 \<and> length numbers mod partition_size \<noteq> 0"
  let ?r = "length numbers mod partition_size"
  have r: "0 < ?r" "?r < partition_size" using a by simp_all
  have "Suc (length numbers) mod partition_size =
          (if Suc ?r = partition_size then 0 else Suc ?r)"
    by (rule mod_Suc)
  then have "(partition_size - Suc (length numbers) mod partition_size) mod partition_size
               < (partition_size - ?r) mod partition_size"
    using r by (auto simp: mod_less)
  then show "((partition_size, zero, numbers @ [zero]), (partition_size, zero, numbers)) \<in>
        measure (\<lambda>(partition_size, zero, numbers).
                   (partition_size - length numbers mod partition_size) mod partition_size)"
    by simp
qed

declare pad_numbers.simps [simp del]

text \<open>
  The power set of one partition: \<^verbatim>\<open>new_power_set = [zero]\<close>, then for each value of
  the partition \<^verbatim>\<open>new_power_set += [adder(n, value) for n in new_power_set]\<close>.
\<close>

definition new_power_set_of :: "('a \<Rightarrow> 'a \<Rightarrow> 'a) \<Rightarrow> 'a \<Rightarrow> 'a list \<Rightarrow> 'a list" where
  "new_power_set_of adder zero part =
     fold (\<lambda>v new_power_set. new_power_set @ map (\<lambda>n. adder n v) new_power_set)
       part [zero]"

text \<open>
  \<^verbatim>\<open>for i in range(0, len(numbers), partition_size)\<close> over the slices
  \<^verbatim>\<open>numbers[i:i+partition_size]\<close>. The range has
  \<open>\<lceil>len(numbers) / partition_size\<rceil>\<close> members.
\<close>

definition power_sets_of :: "('a \<Rightarrow> 'a \<Rightarrow> 'a) \<Rightarrow> 'a \<Rightarrow> nat \<Rightarrow> 'a list \<Rightarrow> 'a list list" where
  "power_sets_of adder zero partition_size numbers =
     map (\<lambda>q. new_power_set_of adder zero
                 (take partition_size (drop (q * partition_size) numbers)))
       [0..<(length numbers + partition_size - 1) div partition_size]"

text \<open>
  \<^verbatim>\<open>for j in range(partition_size): if i * partition_size + j in subset:
  index_in_power_set += 2 ** j\<close>.
\<close>

definition index_in_power_set_of :: "nat \<Rightarrow> nat \<Rightarrow> nat set \<Rightarrow> nat" where
  "index_in_power_set_of partition_size i sub =
     fold (\<lambda>j index_in_power_set.
             if i * partition_size + j \<in> sub then index_in_power_set + 2 ^ j
             else index_in_power_set)
       [0..<partition_size] 0"

text \<open>
  \<^verbatim>\<open>for i in range(len(power_sets)): o = adder(o, power_sets[i][index_in_power_set])\<close>
  for one subset; \<open>acc\<close> is the variable \<^verbatim>\<open>o\<close>. The list read
  \<^verbatim>\<open>power_sets[i][index_in_power_set]\<close> raises \<^verbatim>\<open>IndexError\<close> out of range.
\<close>

fun sum_partitions ::
  "('a \<Rightarrow> 'a \<Rightarrow> 'a) \<Rightarrow> nat \<Rightarrow> 'a list list \<Rightarrow> nat set \<Rightarrow> nat list \<Rightarrow> 'a \<Rightarrow> error + 'a" where
  "sum_partitions adder partition_size power_sets sub [] acc = Inr acc"
| "sum_partitions adder partition_size power_sets sub (i # rest) acc =
     (let index_in_power_set = index_in_power_set_of partition_size i sub in
      if i < length power_sets \<and> index_in_power_set < length (power_sets ! i)
      then sum_partitions adder partition_size power_sets sub rest
             (adder acc (power_sets ! i ! index_in_power_set))
      else Inl IndexError)"

text \<open>\<^verbatim>\<open>for subset in subsets: ...; subset_sums.append(o)\<close>.\<close>

fun subset_sums_of ::
  "('a \<Rightarrow> 'a \<Rightarrow> 'a) \<Rightarrow> 'a \<Rightarrow> nat \<Rightarrow> 'a list list \<Rightarrow> nat set list \<Rightarrow> error + 'a list" where
  "subset_sums_of adder zero partition_size power_sets [] = Inr []"
| "subset_sums_of adder zero partition_size power_sets (sub # rest) =
     (case sum_partitions adder partition_size power_sets sub [0..<length power_sets] zero of
        Inl e \<Rightarrow> Inl e
      | Inr acc \<Rightarrow>
          (case subset_sums_of adder zero partition_size power_sets rest of
             Inl e \<Rightarrow> Inl e
           | Inr subset_sums \<Rightarrow> Inr (acc # subset_sums)))"

definition multisubset2 ::
  "'a list \<Rightarrow> nat set list \<Rightarrow> ('a \<Rightarrow> 'a \<Rightarrow> 'a) \<Rightarrow> 'a \<Rightarrow> error + 'a list" where
  "multisubset2 numbers subsets adder zero =
     (let partition_size = 1 + int_log (length subsets + 1);
          numbers' = pad_numbers partition_size zero numbers;
          power_sets = power_sets_of adder zero partition_size numbers'
      in subset_sums_of adder zero partition_size power_sets subsets)"

subsection \<open>\<^verbatim>\<open>lincomb\<close>\<close>

text \<open>
  \<^verbatim>\<open>len(bin(f))\<close>: \<^verbatim>\<open>bin\<close> prints a minus sign for a negative integer, then
  \<^verbatim>\<open>0b\<close>, then the binary digits of the absolute value (one digit for zero).
\<close>

fun bin_digits :: "nat \<Rightarrow> nat" where
  "bin_digits n = (if n < 2 then 1 else 1 + bin_digits (n div 2))"

declare bin_digits.simps [simp del]

definition len_bin :: "int \<Rightarrow> nat" where
  "len_bin f = (if f < 0 then 1 else 0) + 2 + bin_digits (nat \<bar>f\<bar>)"

text \<open>
  \<^verbatim>\<open>max(len(bin(f))-2 for f in factors)\<close>; \<^verbatim>\<open>max\<close> of an empty sequence raises
  \<^verbatim>\<open>ValueError\<close>, which \<open>lincomb_counted\<close> tests for.
\<close>

definition maxbitlen_of :: "int list \<Rightarrow> nat" where
  "maxbitlen_of factors = Max (set (map (\<lambda>f. len_bin f - 2) factors))"

text \<open>
  The subsets: \<^verbatim>\<open>{i for i in range(len(numbers)) if factors[i] & (1 << j)}\<close> for each
  \<^verbatim>\<open>j in range(maxbitlen+1)\<close>. Python's \<^verbatim>\<open>&\<close> on integers is the bitwise and of the
  two's complement representations, as \<open>and\<close> on \<open>int\<close> is.
\<close>

definition bit_subsets :: "nat \<Rightarrow> int list \<Rightarrow> nat \<Rightarrow> nat set list" where
  "bit_subsets n factors maxbitlen =
     map (\<lambda>j. set (filter (\<lambda>i. and (factors ! i) (push_bit j 1) \<noteq> 0) [0..<n]))
       [0..<maxbitlen + 1]"

text \<open>
  The recombination loop,
  \<^verbatim>\<open>for i in range(len(subsets)-1, -1, -1): o = adder(adder(o, o), subset_sums[i])\<close>.
  The second component of the state counts the calls of the adder that the loop makes.
\<close>

fun recombine ::
  "('a \<Rightarrow> 'a \<Rightarrow> 'a) \<Rightarrow> 'a list \<Rightarrow> nat list \<Rightarrow> 'a \<times> nat \<Rightarrow> error + 'a \<times> nat" where
  "recombine adder subset_sums [] (acc, calls) = Inr (acc, calls)"
| "recombine adder subset_sums (i # rest) (acc, calls) =
     (if i < length subset_sums
      then recombine adder subset_sums rest (adder (adder acc acc) (subset_sums ! i), calls + 2)
      else Inl IndexError)"

text \<open>
  \<^verbatim>\<open>lincomb\<close>, returning with the result the number of adder calls of its recombination
  loop. \<^verbatim>\<open>factors[i]\<close> raises \<^verbatim>\<open>IndexError\<close> when \<^verbatim>\<open>factors\<close> is shorter than
  \<^verbatim>\<open>numbers\<close>. When \<^verbatim>\<open>multisubset\<close> returns \<^verbatim>\<open>None\<close>, \<^verbatim>\<open>subset_sums[i]\<close> raises
  \<^verbatim>\<open>TypeError\<close>.
\<close>

definition lincomb_counted ::
  "(nat set \<Rightarrow> nat list) \<Rightarrow> 'a list \<Rightarrow> int list \<Rightarrow> ('a \<Rightarrow> 'a \<Rightarrow> 'a) \<Rightarrow> 'a \<Rightarrow> error + 'a \<times> nat" where
  "lincomb_counted enum numbers factors adder zero =
     (if factors = [] then Inl ValueError
      else
        (let maxbitlen = maxbitlen_of factors in
         if length factors < length numbers then Inl IndexError
         else
           (let subsets = bit_subsets (length numbers) factors maxbitlen in
            case multisubset enum numbers subsets adder zero of
              Inl e \<Rightarrow> Inl e
            | Inr None \<Rightarrow> Inl TypeError
            | Inr (Some subset_sums) \<Rightarrow>
                recombine adder subset_sums (rev [0..<length subsets]) (zero, 0))))"

definition lincomb ::
  "(nat set \<Rightarrow> nat list) \<Rightarrow> 'a list \<Rightarrow> int list \<Rightarrow> ('a \<Rightarrow> 'a \<Rightarrow> 'a) \<Rightarrow> 'a \<Rightarrow> error + 'a" where
  "lincomb enum numbers factors adder zero =
     (case lincomb_counted enum numbers factors adder zero of
        Inl e \<Rightarrow> Inl e
      | Inr (acc, calls) \<Rightarrow> Inr acc)"

text \<open>
  The naive reference of the tests for a linear combination: each element added to itself
  \<open>factor\<close> times, and the results folded together.
\<close>

definition repeat_add :: "('a \<Rightarrow> 'a \<Rightarrow> 'a) \<Rightarrow> 'a \<Rightarrow> nat \<Rightarrow> 'a \<Rightarrow> 'a" where
  "repeat_add adder zero n x = ((\<lambda>acc. adder acc x) ^^ n) zero"

definition weighted_sum :: "('a \<Rightarrow> 'a \<Rightarrow> 'a) \<Rightarrow> 'a \<Rightarrow> 'a list \<Rightarrow> int list \<Rightarrow> 'a" where
  "weighted_sum adder zero numbers factors =
     adder_fold adder zero (map (\<lambda>(x, f). repeat_add adder zero (nat f) x) (zip numbers factors))"

section \<open>Invariant of the greedy solver\<close>

text \<open>
  \<open>total_size\<close> is the number of indices left in the live subsets; it decreases in
  every round that merges a pair. \<open>solver_inv\<close> is the invariant of the rounds for a
  target sum \<open>target k\<close> of each subset \<open>k\<close>: the keys of the dictionary are distinct; a live
  subset is finite, holds valid indices, has its output still at \<open>zero\<close> and sums to its
  target over the current numbers; the output of a subset no longer in the dictionary is
  its target. \<open>emptied x y subs j\<close> says that merging the pair \<open>(x, y)\<close> empties the
  subset of key \<open>j\<close>.
\<close>

definition total_size :: "subset_dict \<Rightarrow> nat" where
  "total_size subsets = sum_list (map (\<lambda>(k, S). card S) subsets)"

definition solver_inv :: "('a \<Rightarrow> 'a \<Rightarrow> 'a) \<Rightarrow> 'a \<Rightarrow> (nat \<Rightarrow> 'a) \<Rightarrow> 'a state \<Rightarrow> bool" where
  "solver_inv adder zero target s =
     (case s of (numbers, subsets, output) \<Rightarrow>
        distinct (map fst subsets) \<and>
        (\<forall>(k, S) \<in> set subsets.
           finite S \<and> (\<forall>i\<in>S. i < length numbers) \<and> k < length output \<and> output ! k = zero \<and>
           subset_sum adder zero numbers S = target k) \<and>
        (\<forall>k < length output. k \<notin> fst ` set subsets \<longrightarrow> output ! k = target k))"

definition emptied :: "nat \<Rightarrow> nat \<Rightarrow> subset_dict \<Rightarrow> nat \<Rightarrow> bool" where
  "emptied x y subs j \<longleftrightarrow> (\<exists>S. (j, S) \<in> set subs \<and> x \<in> S \<and> y \<in> S \<and> S - {x} - {y} = {})"

text \<open>
  \<open>mask_of c P\<close> is the index into a power set of \<open>c\<close> values that selects the positions
  satisfying \<open>P\<close>: the sum of \<open>2 ^ j\<close> over them.
\<close>

definition mask_of :: "nat \<Rightarrow> (nat \<Rightarrow> bool) \<Rightarrow> nat" where
  "mask_of c P = fold (\<lambda>j index. if P j then index + 2 ^ j else index) [0..<c] 0"

text \<open>
  For an index \<open>i\<close> that no appended sum can reach: \<open>bad_inv i\<close> says that the live
  subsets are finite, that one of them holds \<open>i\<close>, and that the length of the numbers plus
  the indices left in the subsets does not exceed \<open>i\<close>. \<open>pairs_live\<close> says that every pair
  still to be visited in a round, with no member used yet, lies in some live subset.
\<close>

definition bad_inv :: "nat \<Rightarrow> 'a state \<Rightarrow> bool" where
  "bad_inv i s =
     (case s of (numbers, subsets, output) \<Rightarrow>
        (\<forall>k S. (k, S) \<in> set subsets \<longrightarrow> finite S) \<and>
        (\<exists>k S. (k, S) \<in> set subsets \<and> i \<in> S) \<and>
        length numbers + total_size subsets \<le> i)"

definition pairs_live :: "(nat \<times> nat) list \<Rightarrow> nat set \<Rightarrow> subset_dict \<Rightarrow> bool" where
  "pairs_live pairs used subsets =
     (\<forall>x y. (x, y) \<in> set pairs \<longrightarrow> x \<notin> used \<longrightarrow> y \<notin> used \<longrightarrow>
        x \<noteq> y \<and> (\<exists>k S. (k, S) \<in> set subsets \<and> x \<in> S \<and> y \<in> S))"

section \<open>Folding the adder\<close>

lemma group_adder_assoc: "group_adder adder zero \<Longrightarrow> adder (adder x y) z = adder x (adder y z)"
  unfolding group_adder_def by blast

lemma group_adder_commute: "group_adder adder zero \<Longrightarrow> adder x y = adder y x"
  unfolding group_adder_def by blast

lemma group_adder_left_zero: "group_adder adder zero \<Longrightarrow> adder zero x = x"
  unfolding group_adder_def by blast

lemma group_adder_right_zero: "group_adder adder zero \<Longrightarrow> adder x zero = x"
  by (metis group_adder_commute group_adder_left_zero)

lemma foldl_adder_start:
  assumes "group_adder adder zero"
  shows "foldl adder a xs = adder a (foldl adder zero xs)"
proof (induction xs rule: rev_induct)
  case Nil
  show ?case by (simp add: group_adder_right_zero [OF assms])
next
  case (snoc x xs)
  then show ?case by (simp add: group_adder_assoc [OF assms])
qed

lemma adder_fold_Nil: "adder_fold adder zero [] = zero"
  by (simp add: adder_fold_def)

lemma adder_fold_Cons:
  assumes "group_adder adder zero"
  shows "adder_fold adder zero (x # xs) = adder x (adder_fold adder zero xs)"
  using foldl_adder_start [OF assms, of x xs]
  by (simp add: adder_fold_def group_adder_left_zero [OF assms])

lemma adder_fold_append:
  assumes "group_adder adder zero"
  shows "adder_fold adder zero (xs @ ys) = adder (adder_fold adder zero xs) (adder_fold adder zero ys)"
  using foldl_adder_start [OF assms, of "foldl adder zero xs" ys]
  by (simp add: adder_fold_def)

lemma adder_fold_perm:
  assumes "group_adder adder zero" and "mset xs = mset ys"
  shows "adder_fold adder zero xs = adder_fold adder zero ys"
proof -
  have "fold (\<lambda>v acc. adder acc v) xs = fold (\<lambda>v acc. adder acc v) ys"
  proof (rule fold_multiset_equiv)
    fix x y
    show "(\<lambda>acc. adder acc x) \<circ> (\<lambda>acc. adder acc y) = (\<lambda>acc. adder acc y) \<circ> (\<lambda>acc. adder acc x)"
      by (rule ext) (metis comp_apply group_adder_assoc [OF assms(1)] group_adder_commute [OF assms(1)])
  qed (rule assms(2))
  then show ?thesis
    by (simp add: adder_fold_def foldl_conv_fold)
qed

lemma subset_sum_enum:
  assumes "group_adder adder zero" and "distinct xs"
  shows "adder_fold adder zero (map (\<lambda>x. numbers ! x) xs) = subset_sum adder zero numbers (set xs)"
proof -
  have "mset (sorted_list_of_set (set xs)) = mset xs"
    using assms(2) by (metis mset_set_set mset_sorted_list_of_multiset sorted_list_of_mset_set sorted_list_of_multiset_mset mset_sort)
  then have "mset (map (\<lambda>x. numbers ! x) xs) = mset (map (\<lambda>x. numbers ! x) (sorted_list_of_set (set xs)))"
    by (metis mset_map)
  then show ?thesis
    unfolding subset_sum_def by (rule adder_fold_perm [OF assms(1)])
qed

lemma subset_sum_empty: "subset_sum adder zero numbers {} = zero"
  by (simp add: subset_sum_def adder_fold_def)

lemma subset_sum_insert:
  assumes "group_adder adder zero" and "finite S" and "x \<notin> S"
  shows "subset_sum adder zero numbers (insert x S) = adder (numbers ! x) (subset_sum adder zero numbers S)"
proof -
  have d: "distinct (x # sorted_list_of_set S)" using assms by simp
  have "set (x # sorted_list_of_set S) = insert x S" using assms by simp
  then show ?thesis
    using subset_sum_enum [OF assms(1) d, of numbers] adder_fold_Cons [OF assms(1)]
    by (simp add: subset_sum_def)
qed

lemma subset_sum_remove:
  assumes "group_adder adder zero" and "finite S" and "x \<in> S"
  shows "subset_sum adder zero numbers S = adder (numbers ! x) (subset_sum adder zero numbers (S - {x}))"
  using subset_sum_insert [OF assms(1), of "S - {x}" x numbers] assms(2,3)
  by (simp add: insert_absorb)

lemma subset_sum_append:
  assumes "\<forall>i\<in>S. i < length numbers" and "finite S"
  shows "subset_sum adder zero (numbers @ ys) S = subset_sum adder zero numbers S"
proof -
  have "map (\<lambda>x. (numbers @ ys) ! x) (sorted_list_of_set S) = map (\<lambda>x. numbers ! x) (sorted_list_of_set S)"
    using assms by (simp add: nth_append)
  then show ?thesis unfolding subset_sum_def by (rule arg_cong)
qed

section \<open>One merged pair\<close>

lemma rewrite_Cons_delete:
  "x \<in> S \<Longrightarrow> y \<in> S \<Longrightarrow> S - {x} - {y} = {} \<Longrightarrow>
   rewrite x y n v ((k, S) # rest) out = rewrite x y n v rest (out[k := v])"
  by simp

lemma rewrite_Cons_merge:
  "x \<in> S \<Longrightarrow> y \<in> S \<Longrightarrow> S - {x} - {y} \<noteq> {} \<Longrightarrow>
   rewrite x y n v ((k, S) # rest) out =
     ((k, insert n (S - {x} - {y})) # fst (rewrite x y n v rest out), snd (rewrite x y n v rest out))"
  by (simp add: Let_def split: prod.splits)

lemma rewrite_Cons_keep:
  "\<not> (x \<in> S \<and> y \<in> S) \<Longrightarrow>
   rewrite x y n v ((k, S) # rest) out =
     ((k, S) # fst (rewrite x y n v rest out), snd (rewrite x y n v rest out))"
  by (cases "rewrite x y n v rest out") auto

lemma rewrite_cases:
  obtains (delete) "x \<in> S" "y \<in> S" "S - {x} - {y} = {}"
  | (merge) "x \<in> S" "y \<in> S" "S - {x} - {y} \<noteq> {}"
  | (keep) "\<not> (x \<in> S \<and> y \<in> S)"
  by blast

lemma rewrite_length: "length (snd (rewrite x y n v subs out)) = length out"
proof (induction subs arbitrary: out)
  case Nil
  show ?case by simp
next
  case (Cons a subs)
  obtain k S where a: "a = (k, S)" by (cases a)
  show ?case
  proof (cases rule: rewrite_cases [of x S y])
    case delete
    then show ?thesis unfolding a rewrite_Cons_delete [OF delete] by (simp add: Cons.IH)
  next
    case merge
    then show ?thesis unfolding a rewrite_Cons_merge [OF merge] by (simp add: Cons.IH)
  next
    case keep
    then show ?thesis unfolding a rewrite_Cons_keep [OF keep] by (simp add: Cons.IH)
  qed
qed

lemma rewrite_keys: "fst ` set (fst (rewrite x y n v subs out)) \<subseteq> fst ` set subs"
proof (induction subs arbitrary: out)
  case Nil
  show ?case by simp
next
  case (Cons a subs)
  obtain k S where a: "a = (k, S)" by (cases a)
  show ?case
  proof (cases rule: rewrite_cases [of x S y])
    case delete
    show ?thesis unfolding a rewrite_Cons_delete [OF delete]
      using Cons.IH [of "out[k := v]"] by auto
  next
    case merge
    show ?thesis unfolding a rewrite_Cons_merge [OF merge]
      using Cons.IH [of out] by auto
  next
    case keep
    show ?thesis unfolding a rewrite_Cons_keep [OF keep]
      using Cons.IH [of out] by auto
  qed
qed

lemma rewrite_distinct:
  "distinct (map fst subs) \<Longrightarrow> distinct (map fst (fst (rewrite x y n v subs out)))"
proof (induction subs arbitrary: out)
  case Nil
  then show ?case by simp
next
  case (Cons a subs)
  obtain k S where a: "a = (k, S)" by (cases a)
  have k: "k \<notin> fst ` set (fst (rewrite x y n v subs out'))" for out'
    using Cons.prems rewrite_keys [of x y n v subs out'] by (auto simp: a)
  have d: "distinct (map fst (fst (rewrite x y n v subs out')))" for out'
    using Cons by simp
  show ?case
  proof (cases rule: rewrite_cases [of x S y])
    case delete
    show ?thesis unfolding a rewrite_Cons_delete [OF delete] by (rule d)
  next
    case merge
    show ?thesis unfolding a rewrite_Cons_merge [OF merge] using d [of out] k [of out] by simp
  next
    case keep
    show ?thesis unfolding a rewrite_Cons_keep [OF keep] using d [of out] k [of out] by simp
  qed
qed

lemma rewrite_entries:
  "(k, S') \<in> set (fst (rewrite x y n v subs out)) \<Longrightarrow>
   \<exists>S. (k, S) \<in> set subs \<and>
     ((x \<in> S \<and> y \<in> S \<and> S' = insert n (S - {x} - {y}) \<and> S - {x} - {y} \<noteq> {}) \<or>
      (\<not> (x \<in> S \<and> y \<in> S) \<and> S' = S))"
proof (induction subs arbitrary: out)
  case Nil
  then show ?case by simp
next
  case (Cons a subs)
  obtain k0 S0 where a: "a = (k0, S0)" by (cases a)
  have rest: "\<exists>S. (k, S) \<in> set (a # subs) \<and>
     ((x \<in> S \<and> y \<in> S \<and> S' = insert n (S - {x} - {y}) \<and> S - {x} - {y} \<noteq> {}) \<or>
      (\<not> (x \<in> S \<and> y \<in> S) \<and> S' = S))"
    if "(k, S') \<in> set (fst (rewrite x y n v subs out'))" for out'
    using Cons.IH [OF that] by auto
  show ?case
  proof (cases rule: rewrite_cases [of x S0 y])
    case delete
    show ?thesis
      using Cons.prems unfolding a rewrite_Cons_delete [OF delete]
      by (rule rest [unfolded a])
  next
    case merge
    have "(k, S') = (k0, insert n (S0 - {x} - {y})) \<or> (k, S') \<in> set (fst (rewrite x y n v subs out))"
      using Cons.prems unfolding a rewrite_Cons_merge [OF merge] by simp
    then show ?thesis
    proof
      assume "(k, S') = (k0, insert n (S0 - {x} - {y}))"
      then show ?thesis using merge by (intro exI [of _ S0]) (simp add: a)
    next
      assume "(k, S') \<in> set (fst (rewrite x y n v subs out))"
      then show ?thesis by (rule rest)
    qed
  next
    case keep
    have "(k, S') = (k0, S0) \<or> (k, S') \<in> set (fst (rewrite x y n v subs out))"
      using Cons.prems unfolding a rewrite_Cons_keep [OF keep] by simp
    then show ?thesis
    proof
      assume "(k, S') = (k0, S0)"
      then show ?thesis using keep by (intro exI [of _ S0]) (simp add: a)
    next
      assume "(k, S') \<in> set (fst (rewrite x y n v subs out))"
      then show ?thesis by (rule rest)
    qed
  qed
qed

lemma rewrite_deleted:
  "(k, S) \<in> set subs \<Longrightarrow> k \<notin> fst ` set (fst (rewrite x y n v subs out)) \<Longrightarrow>
   x \<in> S \<and> y \<in> S \<and> S - {x} - {y} = {}"
proof (induction subs arbitrary: out)
  case Nil
  then show ?case by simp
next
  case (Cons a subs)
  obtain k0 S0 where a: "a = (k0, S0)" by (cases a)
  show ?case
  proof (cases rule: rewrite_cases [of x S0 y])
    case delete
    have notin: "k \<notin> fst ` set (fst (rewrite x y n v subs (out[k0 := v])))"
      using Cons.prems(2) unfolding a rewrite_Cons_delete [OF delete] .
    show ?thesis
    proof (cases "(k, S) = (k0, S0)")
      case True
      then show ?thesis using delete by simp
    next
      case False
      then have "(k, S) \<in> set subs" using Cons.prems(1) by (auto simp: a)
      then show ?thesis using notin by (rule Cons.IH)
    qed
  next
    case merge
    have notin: "k \<noteq> k0 \<and> k \<notin> fst ` set (fst (rewrite x y n v subs out))"
      using Cons.prems(2) unfolding a rewrite_Cons_merge [OF merge] by simp
    then have "(k, S) \<in> set subs" using Cons.prems(1) by (auto simp: a)
    then show ?thesis using notin by (intro Cons.IH [of out]) simp_all
  next
    case keep
    have notin: "k \<noteq> k0 \<and> k \<notin> fst ` set (fst (rewrite x y n v subs out))"
      using Cons.prems(2) unfolding a rewrite_Cons_keep [OF keep] by simp
    then have "(k, S) \<in> set subs" using Cons.prems(1) by (auto simp: a)
    then show ?thesis using notin by (intro Cons.IH [of out]) simp_all
  qed
qed

lemma emptied_Cons:
  "emptied x y ((k, S) # subs) j \<longleftrightarrow>
     (j = k \<and> x \<in> S \<and> y \<in> S \<and> S - {x} - {y} = {}) \<or> emptied x y subs j"
  unfolding emptied_def by auto

lemma nth_list_update_any:
  "xs[i := v] ! j = (if j = i \<and> j < length xs then v else xs ! j)"
  by (cases "i < length xs") (auto simp: nth_list_update list_update_beyond)

lemma rewrite_output:
  "snd (rewrite x y n v subs out) ! j =
     (if j < length out \<and> emptied x y subs j then v else out ! j)"
proof (induction subs arbitrary: out)
  case Nil
  then show ?case by (simp add: emptied_def)
next
  case (Cons a subs)
  obtain k0 S0 where a: "a = (k0, S0)" by (cases a)
  show ?case
  proof (cases rule: rewrite_cases [of x S0 y])
    case delete
    have e: "emptied x y (a # subs) j \<longleftrightarrow> j = k0 \<or> emptied x y subs j"
      unfolding a emptied_Cons using delete by simp
    show ?thesis
      unfolding a rewrite_Cons_delete [OF delete] Cons.IH [of "out[k0 := v]"] e [unfolded a]
      by (auto simp: nth_list_update_any)
  next
    case merge
    have e: "emptied x y (a # subs) j \<longleftrightarrow> emptied x y subs j"
      unfolding a emptied_Cons using merge by simp
    show ?thesis
      unfolding a rewrite_Cons_merge [OF merge] e [unfolded a] by (simp add: Cons.IH)
  next
    case keep
    have e: "emptied x y (a # subs) j \<longleftrightarrow> emptied x y subs j"
      unfolding a emptied_Cons using keep by auto
    show ?thesis
      unfolding a rewrite_Cons_keep [OF keep] e [unfolded a] by (simp add: Cons.IH)
  qed
qed


lemma card_merged:
  assumes "finite S" and "x \<in> S" and "y \<in> S" and "x \<noteq> y"
  shows "card (insert n (S - {x} - {y})) < card S"
proof -
  have "card (S - {x} - {y}) = card S - 2"
    using assms by (simp add: card_Diff_singleton_if)
  moreover have "2 \<le> card S"
  proof -
    have "card {x, y} \<le> card S" using assms by (intro card_mono) auto
    then show ?thesis using assms(4) by simp
  qed
  moreover have "card (insert n (S - {x} - {y})) \<le> Suc (card (S - {x} - {y}))"
    using assms(1) by (simp add: card_insert_if)
  ultimately show ?thesis by linarith
qed

lemma total_size_Cons: "total_size ((k, S) # subs) = card S + total_size subs"
  by (simp add: total_size_def)

lemma rewrite_total_size:
  "\<forall>(k, S) \<in> set subs. finite S \<Longrightarrow> x \<noteq> y \<Longrightarrow>
   total_size (fst (rewrite x y n v subs out)) \<le> total_size subs"
proof (induction subs arbitrary: out)
  case Nil
  show ?case by simp
next
  case (Cons a subs)
  obtain k S where a: "a = (k, S)" by (cases a)
  have fin: "finite S" using Cons.prems(1) by (simp add: a)
  have IH: "total_size (fst (rewrite x y n v subs out')) \<le> total_size subs" for out'
    using Cons by simp
  show ?case
  proof (cases rule: rewrite_cases [of x S y])
    case delete
    show ?thesis unfolding a rewrite_Cons_delete [OF delete] total_size_Cons
      using IH [of "out[k := v]"] by simp
  next
    case merge
    show ?thesis unfolding a rewrite_Cons_merge [OF merge] total_size_Cons fst_conv
      using IH [of out] card_merged [OF fin merge(1,2) Cons.prems(2), of n] by simp
  next
    case keep
    show ?thesis unfolding a rewrite_Cons_keep [OF keep] total_size_Cons fst_conv
      using IH [of out] by simp
  qed
qed

lemma rewrite_total_size_less:
  "\<forall>(k, S) \<in> set subs. finite S \<Longrightarrow> x \<noteq> y \<Longrightarrow>
   (k0, S0) \<in> set subs \<Longrightarrow> x \<in> S0 \<Longrightarrow> y \<in> S0 \<Longrightarrow>
   total_size (fst (rewrite x y n v subs out)) < total_size subs"
proof (induction subs arbitrary: out)
  case Nil
  then show ?case by simp
next
  case (Cons a subs)
  obtain k S where a: "a = (k, S)" by (cases a)
  have fin: "finite S" using Cons.prems(1) by (simp add: a)
  have fins: "\<forall>(k, S) \<in> set subs. finite S" using Cons.prems(1) by simp
  have le: "total_size (fst (rewrite x y n v subs out')) \<le> total_size subs" for out'
    using fins Cons.prems(2) by (rule rewrite_total_size)
  have less: "total_size (fst (rewrite x y n v subs out')) < total_size subs"
    if "(k0, S0) \<in> set subs" for out'
    using fins Cons.prems(2) that Cons.prems(4,5) by (rule Cons.IH)
  have here: "(k0, S0) \<in> set subs \<or> (x \<in> S \<and> y \<in> S)"
    using Cons.prems(3,4,5) by (auto simp: a)
  show ?case
  proof (cases rule: rewrite_cases [of x S y])
    case delete
    have "0 < card S" using fin delete(1) by (auto simp: card_gt_0_iff)
    then show ?thesis unfolding a rewrite_Cons_delete [OF delete] total_size_Cons
      using le [of "out[k := v]"] by simp
  next
    case merge
    show ?thesis unfolding a rewrite_Cons_merge [OF merge] total_size_Cons fst_conv
      using le [of out] card_merged [OF fin merge(1,2) Cons.prems(2), of n] by simp
  next
    case keep
    then have "(k0, S0) \<in> set subs" using here by blast
    then show ?thesis unfolding a rewrite_Cons_keep [OF keep] total_size_Cons fst_conv
      using less [of out] by simp
  qed
qed

lemma solver_invI:
  assumes "distinct (map fst subsets)"
    and "\<And>k S. (k, S) \<in> set subsets \<Longrightarrow>
           finite S \<and> (\<forall>i\<in>S. i < length numbers) \<and> k < length output \<and> output ! k = zero \<and>
           subset_sum adder zero numbers S = target k"
    and "\<And>k. k < length output \<Longrightarrow> k \<notin> fst ` set subsets \<Longrightarrow> output ! k = target k"
  shows "solver_inv adder zero target (numbers, subsets, output)"
  using assms unfolding solver_inv_def by auto

lemma solver_inv_distinct:
  "solver_inv adder zero target (numbers, subsets, output) \<Longrightarrow> distinct (map fst subsets)"
  unfolding solver_inv_def by simp

lemma solver_inv_entry:
  "solver_inv adder zero target (numbers, subsets, output) \<Longrightarrow> (k, S) \<in> set subsets \<Longrightarrow>
   finite S \<and> (\<forall>i\<in>S. i < length numbers) \<and> k < length output \<and> output ! k = zero \<and>
   subset_sum adder zero numbers S = target k"
  unfolding solver_inv_def by auto

lemma solver_inv_dead:
  "solver_inv adder zero target (numbers, subsets, output) \<Longrightarrow>
   k < length output \<Longrightarrow> k \<notin> fst ` set subsets \<Longrightarrow> output ! k = target k"
  unfolding solver_inv_def by auto

lemma solver_inv_finite:
  "solver_inv adder zero target (numbers, subsets, output) \<Longrightarrow> \<forall>(k, S) \<in> set subsets. finite S"
  unfolding solver_inv_def by auto

lemma subset_sum_pair_split:
  assumes ga: "group_adder adder zero" and "finite S" and "x \<in> S" and "y \<in> S" and "x \<noteq> y"
  shows "subset_sum adder zero numbers S =
         adder (adder (numbers ! x) (numbers ! y)) (subset_sum adder zero numbers (S - {x} - {y}))"
proof -
  have "subset_sum adder zero numbers S = adder (numbers ! x) (subset_sum adder zero numbers (S - {x}))"
    using assms by (intro subset_sum_remove)
  also have "subset_sum adder zero numbers (S - {x}) =
             adder (numbers ! y) (subset_sum adder zero numbers (S - {x} - {y}))"
    using assms by (intro subset_sum_remove) auto
  finally show ?thesis by (simp add: group_adder_assoc [OF ga])
qed

lemma rewrite_inv:
  assumes ga: "group_adder adder zero"
    and inv: "solver_inv adder zero target (numbers, subsets, output)"
    and x: "x < length numbers" and y: "y < length numbers" and xy: "x \<noteq> y"
  shows "solver_inv adder zero target
           (numbers @ [adder (numbers ! x) (numbers ! y)],
            fst (rewrite x y (length numbers) (adder (numbers ! x) (numbers ! y)) subsets output),
            snd (rewrite x y (length numbers) (adder (numbers ! x) (numbers ! y)) subsets output))"
    (is "solver_inv _ _ _ (?numbers', ?subsets', ?output')")
proof (rule solver_invI)
  let ?v = "adder (numbers ! x) (numbers ! y)"
  let ?n = "length numbers"
  note dist = solver_inv_distinct [OF inv]
  have len: "length ?output' = length output" by (rule rewrite_length)
  show "distinct (map fst ?subsets')" using dist by (rule rewrite_distinct)
  show "finite S' \<and> (\<forall>i\<in>S'. i < length ?numbers') \<and> k < length ?output' \<and> ?output' ! k = zero \<and>
        subset_sum adder zero ?numbers' S' = target k"
    if mem: "(k, S') \<in> set ?subsets'" for k S'
  proof -
    obtain S where S: "(k, S) \<in> set subsets"
      and cases: "(x \<in> S \<and> y \<in> S \<and> S' = insert ?n (S - {x} - {y}) \<and> S - {x} - {y} \<noteq> {}) \<or>
                  (\<not> (x \<in> S \<and> y \<in> S) \<and> S' = S)"
      using rewrite_entries [OF mem] by blast
    note e = solver_inv_entry [OF inv S]
    have uniq: "S2 = S" if S2: "(k, S2) \<in> set subsets" for S2
      using dist S S2 by (meson eq_key_imp_eq_value)
    have "\<not> emptied x y subsets k"
      unfolding emptied_def using uniq cases by blast
    then have out: "?output' ! k = zero"
      using e by (simp add: rewrite_output)
    from cases show ?thesis
    proof
      assume m: "x \<in> S \<and> y \<in> S \<and> S' = insert ?n (S - {x} - {y}) \<and> S - {x} - {y} \<noteq> {}"
      let ?R = "S - {x} - {y}"
      have fin: "finite ?R" and val: "\<forall>i\<in>?R. i < length numbers" and notin: "?n \<notin> ?R"
        using e by auto
      have "subset_sum adder zero ?numbers' S' = adder (?numbers' ! ?n) (subset_sum adder zero ?numbers' ?R)"
        using m subset_sum_insert [OF ga fin notin] by simp
      also have "\<dots> = adder ?v (subset_sum adder zero numbers ?R)"
        using subset_sum_append [OF val fin] by simp
      also have "\<dots> = subset_sum adder zero numbers S"
        using subset_sum_pair_split [OF ga _ _ _ xy, of S numbers] e m by simp
      finally have "subset_sum adder zero ?numbers' S' = target k" using e by simp
      then show ?thesis using m e out len by auto
    next
      assume k: "\<not> (x \<in> S \<and> y \<in> S) \<and> S' = S"
      have "subset_sum adder zero ?numbers' S = subset_sum adder zero numbers S"
        using e by (intro subset_sum_append) auto
      then show ?thesis using k e out len by auto
    qed
  qed
  show "?output' ! k = target k" if k: "k < length ?output'" and dead: "k \<notin> fst ` set ?subsets'" for k
  proof (cases "k \<in> fst ` set subsets")
    case True
    then obtain S where S: "(k, S) \<in> set subsets" by auto
    note e = solver_inv_entry [OF inv S]
    have d: "x \<in> S \<and> y \<in> S \<and> S - {x} - {y} = {}"
      using S dead by (rule rewrite_deleted)
    then have "emptied x y subsets k" unfolding emptied_def using S by blast
    then have "?output' ! k = ?v" using k len by (simp add: rewrite_output)
    moreover have "subset_sum adder zero numbers S = ?v"
      using subset_sum_pair_split [OF ga _ _ _ xy, of S numbers] e d
      by (simp add: subset_sum_empty group_adder_right_zero [OF ga])
    ultimately show ?thesis using e by simp
  next
    case False
    then have "\<not> emptied x y subsets k" unfolding emptied_def by force
    then have "?output' ! k = output ! k" by (simp add: rewrite_output)
    then show ?thesis using solver_inv_dead [OF inv _ False] k len by simp
  qed
qed

section \<open>The pairs of a round\<close>

lemma merge_pairs_Cons_skip:
  "x \<in> used \<or> y \<in> used \<Longrightarrow>
   merge_pairs adder ((x, y) # ps) used (numbers, subsets, output) =
   merge_pairs adder ps used (numbers, subsets, output)"
  by simp

lemma merge_pairs_Cons_merge:
  "\<not> (x \<in> used \<or> y \<in> used) \<Longrightarrow> x < length numbers \<Longrightarrow> y < length numbers \<Longrightarrow>
   merge_pairs adder ((x, y) # ps) used (numbers, subsets, output) =
   merge_pairs adder ps (insert x (insert y used))
     (numbers @ [adder (numbers ! x) (numbers ! y)],
      fst (rewrite x y (length numbers) (adder (numbers ! x) (numbers ! y)) subsets output),
      snd (rewrite x y (length numbers) (adder (numbers ! x) (numbers ! y)) subsets output))"
  by (simp add: Let_def split: prod.splits)

lemma merge_pairs_Cons_raise:
  "\<not> (x \<in> used \<or> y \<in> used) \<Longrightarrow> \<not> (x < length numbers \<and> y < length numbers) \<Longrightarrow>
   merge_pairs adder ((x, y) # ps) used (numbers, subsets, output) = Inl IndexError"
  by auto

lemma merge_pairs_inv:
  assumes ga: "group_adder adder zero"
  shows "\<forall>(x, y) \<in> set pairs. x < y \<and> y < length numbers \<Longrightarrow>
     solver_inv adder zero target (numbers, subsets, output) \<Longrightarrow>
     \<exists>numbers' subsets' output'.
        merge_pairs adder pairs used (numbers, subsets, output) = Inr (numbers', subsets', output') \<and>
        solver_inv adder zero target (numbers', subsets', output') \<and>
        length output' = length output \<and> total_size subsets' \<le> total_size subsets \<and>
        length numbers \<le> length numbers'"
proof (induction pairs arbitrary: used numbers subsets "output")
  case Nil
  then show ?case by simp
next
  case (Cons p pairs)
  obtain x y where p: "p = (x, y)" by (cases p)
  have xy: "x < y" "y < length numbers" and rest: "\<forall>(x, y) \<in> set pairs. x < y \<and> y < length numbers"
    using Cons.prems(1) by (auto simp: p)
  show ?case
  proof (cases "x \<in> used \<or> y \<in> used")
    case True
    show ?thesis
      unfolding p merge_pairs_Cons_skip [OF True]
      using rest Cons.prems(2) by (rule Cons.IH)
  next
    case False
    let ?v = "adder (numbers ! x) (numbers ! y)"
    let ?numbers1 = "numbers @ [?v]"
    let ?subsets1 = "fst (rewrite x y (length numbers) ?v subsets output)"
    let ?output1 = "snd (rewrite x y (length numbers) ?v subsets output)"
    have x: "x < length numbers" and ne: "x \<noteq> y" using xy by auto
    have inv1: "solver_inv adder zero target (?numbers1, ?subsets1, ?output1)"
      using ga Cons.prems(2) x xy(2) ne by (rule rewrite_inv)
    have rest1: "\<forall>(x, y) \<in> set pairs. x < y \<and> y < length ?numbers1"
      using rest by auto
    have size1: "total_size ?subsets1 \<le> total_size subsets"
      using solver_inv_finite [OF Cons.prems(2)] ne by (rule rewrite_total_size)
    have len1: "length ?output1 = length output" by (rule rewrite_length)
    obtain numbers' subsets' output' where
      "merge_pairs adder pairs (insert x (insert y used)) (?numbers1, ?subsets1, ?output1) =
         Inr (numbers', subsets', output')"
      "solver_inv adder zero target (numbers', subsets', output')"
      "length output' = length ?output1" "total_size subsets' \<le> total_size ?subsets1"
      "length ?numbers1 \<le> length numbers'"
      using Cons.IH [OF rest1 inv1] by blast
    then show ?thesis
      unfolding p merge_pairs_Cons_merge [OF False x xy(2)]
      using size1 len1 by auto
  qed
qed


lemma bump_keys: "fst ` set (bump pc p) = insert p (fst ` set pc)"
  by (induction pc p rule: bump.induct) auto

lemma count_inner_keys:
  "fst ` set (fold (\<lambda>y pc. if y > x then bump pc (x, y) else pc) ys pc) =
   fst ` set pc \<union> {x} \<times> {y \<in> set ys. x < y}"
proof (induction ys arbitrary: pc)
  case Nil
  show ?case by simp
next
  case (Cons y ys)
  show ?case
  proof (cases "x < y")
    case True
    then have "fst ` set (fold (\<lambda>y pc. if y > x then bump pc (x, y) else pc) (y # ys) pc) =
               fst ` set (bump pc (x, y)) \<union> {x} \<times> {y \<in> set ys. x < y}"
      using Cons.IH [of "bump pc (x, y)"] by simp
    also have "\<dots> = fst ` set pc \<union> {x} \<times> {y' \<in> set (y # ys). x < y'}"
      unfolding bump_keys using True by auto
    finally show ?thesis .
  next
    case False
    then have "fst ` set (fold (\<lambda>y pc. if y > x then bump pc (x, y) else pc) (y # ys) pc) =
               fst ` set pc \<union> {x} \<times> {y \<in> set ys. x < y}"
      using Cons.IH [of pc] by simp
    also have "\<dots> = fst ` set pc \<union> {x} \<times> {y' \<in> set (y # ys). x < y'}"
      using False by auto
    finally show ?thesis .
  qed
qed

lemma count_outer_keys:
  "fst ` set (fold (\<lambda>x. fold (\<lambda>y pc. if y > x then bump pc (x, y) else pc) ms) xs pc) =
   fst ` set pc \<union> {(x, y). x \<in> set xs \<and> y \<in> set ms \<and> x < y}"
proof (induction xs arbitrary: pc)
  case Nil
  show ?case by simp
next
  case (Cons x xs)
  let ?pc1 = "fold (\<lambda>y pc. if y > x then bump pc (x, y) else pc) ms pc"
  have "fst ` set (fold (\<lambda>x. fold (\<lambda>y pc. if y > x then bump pc (x, y) else pc) ms) (x # xs) pc) =
        fst ` set ?pc1 \<union> {(x, y). x \<in> set xs \<and> y \<in> set ms \<and> x < y}"
    using Cons.IH [of ?pc1] by simp
  also have "\<dots> = fst ` set pc \<union> {(x', y). x' \<in> set (x # xs) \<and> y \<in> set ms \<and> x' < y}"
    unfolding count_inner_keys by auto
  finally show ?case .
qed

lemma count_subset_keys:
  "fst ` set (count_subset ms pc) = fst ` set pc \<union> {(x, y). x \<in> set ms \<and> y \<in> set ms \<and> x < y}"
  unfolding count_subset_def by (rule count_outer_keys)

lemma count_pairs_fold_keys:
  "fst ` set (fold (\<lambda>(index, sub). count_subset (enum sub)) subs pc) =
   fst ` set pc \<union> {(x, y). \<exists>(k, S) \<in> set subs. x \<in> set (enum S) \<and> y \<in> set (enum S) \<and> x < y}"
proof (induction subs arbitrary: pc)
  case Nil
  show ?case by simp
next
  case (Cons a subs)
  obtain k S where a: "a = (k, S)" by (cases a)
  have "fst ` set (fold (\<lambda>(index, sub). count_subset (enum sub)) (a # subs) pc) =
        fst ` set (count_subset (enum S) pc) \<union>
        {(x, y). \<exists>(k, S) \<in> set subs. x \<in> set (enum S) \<and> y \<in> set (enum S) \<and> x < y}"
    unfolding a using Cons.IH [of "count_subset (enum S) pc"] by simp
  also have "\<dots> = fst ` set pc \<union>
        {(x, y). \<exists>(k, S) \<in> set (a # subs). x \<in> set (enum S) \<and> y \<in> set (enum S) \<and> x < y}"
    unfolding count_subset_keys a by auto
  finally show ?case .
qed

lemma count_pairs_keys:
  "fst ` set (count_pairs enum subs) =
   {(x, y). \<exists>(k, S) \<in> set subs. x \<in> set (enum S) \<and> y \<in> set (enum S) \<and> x < y}"
  unfolding count_pairs_def count_pairs_fold_keys by simp

lemma pairs_by_count_subset: "set (pairs_by_count_of n pc) \<subseteq> fst ` set pc"
proof -
  have "set (pairs_by_count_of n pc) \<subseteq> set (map fst (sort_key (\<lambda>(el, c). - int c) pc))"
    unfolding pairs_by_count_of_def by (rule set_take_subset)
  then show ?thesis by simp
qed

lemma pairs_by_count_member:
  assumes so: "set_order enum" and fin: "\<forall>(k, S) \<in> set subs. finite S"
    and mem: "(x, y) \<in> set (pairs_by_count_of n (count_pairs enum subs))"
  shows "x < y \<and> (\<exists>(k, S) \<in> set subs. x \<in> S \<and> y \<in> S)"
proof -
  have "(x, y) \<in> fst ` set (count_pairs enum subs)"
    using mem pairs_by_count_subset [of n "count_pairs enum subs"] by (rule set_mp [rotated])
  then have "(x, y) \<in> {(x, y). \<exists>(k, S) \<in> set subs. x \<in> set (enum S) \<and> y \<in> set (enum S) \<and> x < y}"
    unfolding count_pairs_keys .
  then obtain k S where kS: "(k, S) \<in> set subs"
    and xy: "x \<in> set (enum S)" "y \<in> set (enum S)" "x < y"
    by auto
  have "finite S" using fin kS by auto
  then have "set (enum S) = S" using so unfolding set_order_def by simp
  then have "x \<in> S \<and> y \<in> S" using xy by simp
  then show ?thesis using kS xy(3) by auto
qed

section \<open>The rounds\<close>

lemma add_indices_ok:
  "\<forall>i \<in> set idxs. i < length numbers \<Longrightarrow> key < length out \<Longrightarrow>
   add_indices adder numbers key idxs out =
     Inr (out[key := foldl adder (out ! key) (map (\<lambda>i. numbers ! i) idxs)])"
  by (induction idxs arbitrary: out) simp_all

lemma finish_ok:
  "distinct (map fst subs) \<Longrightarrow>
   \<forall>(k, S) \<in> set subs. (\<forall>i \<in> set (enum S). i < length numbers) \<and> k < length out \<Longrightarrow>
   \<exists>out'. finish enum adder numbers subs out = Inr out' \<and> length out' = length out \<and>
     (\<forall>(k, S) \<in> set subs. out' ! k = foldl adder (out ! k) (map (\<lambda>i. numbers ! i) (enum S))) \<and>
     (\<forall>j. j \<notin> fst ` set subs \<longrightarrow> out' ! j = out ! j)"
proof (induction subs arbitrary: out)
  case Nil
  show ?case by simp
next
  case (Cons a subs)
  obtain k S where a: "a = (k, S)" by (cases a)
  let ?out1 = "out[k := foldl adder (out ! k) (map (\<lambda>i. numbers ! i) (enum S))]"
  have k: "k < length out" and val: "\<forall>i \<in> set (enum S). i < length numbers"
    and knot: "k \<notin> fst ` set subs" and dist: "distinct (map fst subs)"
    using Cons.prems by (auto simp: a)
  have step: "add_indices adder numbers k (enum S) out = Inr ?out1"
    using val k by (rule add_indices_ok)
  have rest: "\<forall>(k, S) \<in> set subs. (\<forall>i \<in> set (enum S). i < length numbers) \<and> k < length ?out1"
    using Cons.prems(2) by auto
  obtain out' where fin: "finish enum adder numbers subs ?out1 = Inr out'"
    and len: "length out' = length ?out1"
    and live: "\<forall>(k, S) \<in> set subs. out' ! k = foldl adder (?out1 ! k) (map (\<lambda>i. numbers ! i) (enum S))"
    and other: "\<forall>j. j \<notin> fst ` set subs \<longrightarrow> out' ! j = ?out1 ! j"
    using Cons.IH [OF dist rest] by blast
  have 1: "finish enum adder numbers (a # subs) out = Inr out'"
    by (simp add: a step fin)
  have 2: "length out' = length out" using len by simp
  have 3: "out' ! k' = foldl adder (out ! k') (map (\<lambda>i. numbers ! i) (enum S'))"
    if m: "(k', S') \<in> set (a # subs)" for k' S'
  proof (cases "(k', S') = (k, S)")
    case True
    then show ?thesis using other knot k by simp
  next
    case False
    then have m': "(k', S') \<in> set subs" using m by (auto simp: a)
    then have "k' \<noteq> k" using knot by force
    then show ?thesis using live m' by auto
  qed
  have 4: "out' ! j = out ! j" if "j \<notin> fst ` set (a # subs)" for j
    using that other by (simp add: a)
  show ?case using 1 2 3 4 by blast
qed


lemma finish_inv:
  assumes ga: "group_adder adder zero" and so: "set_order enum"
    and inv: "solver_inv adder zero target (numbers, subsets, output)"
  shows "\<exists>out'. finish enum adder numbers subsets output = Inr out' \<and>
           length out' = length output \<and> (\<forall>k < length output. out' ! k = target k)"
proof -
  have en: "set (enum S) = S \<and> distinct (enum S)" if "(k, S) \<in> set subsets" for k S
    using solver_inv_entry [OF inv that] so unfolding set_order_def by simp
  have pre: "\<forall>(k, S) \<in> set subsets. (\<forall>i \<in> set (enum S). i < length numbers) \<and> k < length output"
  proof (clarify)
    fix k S assume m: "(k, S) \<in> set subsets"
    show "(\<forall>i \<in> set (enum S). i < length numbers) \<and> k < length output"
      using solver_inv_entry [OF inv m] en [OF m] by simp
  qed
  obtain out' where fin: "finish enum adder numbers subsets output = Inr out'"
    and len: "length out' = length output"
    and live: "\<forall>(k, S) \<in> set subsets.
                 out' ! k = foldl adder (output ! k) (map (\<lambda>i. numbers ! i) (enum S))"
    and other: "\<forall>j. j \<notin> fst ` set subsets \<longrightarrow> out' ! j = output ! j"
    using finish_ok [OF solver_inv_distinct [OF inv] pre, of adder] by blast
  have "out' ! k = target k" if k: "k < length output" for k
  proof (cases "k \<in> fst ` set subsets")
    case True
    then obtain S where m: "(k, S) \<in> set subsets" by auto
    note e = solver_inv_entry [OF inv m]
    have "out' ! k = adder_fold adder zero (map (\<lambda>i. numbers ! i) (enum S))"
      using live m e by (auto simp: adder_fold_def)
    also have "\<dots> = subset_sum adder zero numbers (set (enum S))"
      using ga en [OF m] by (intro subset_sum_enum) simp_all
    finally show ?thesis using en [OF m] e by simp
  next
    case False
    then show ?thesis using other solver_inv_dead [OF inv k False] by simp
  qed
  then show ?thesis using fin len by blast
qed

lemma rounds_correct:
  assumes ga: "group_adder adder zero" and so: "set_order enum"
  shows "solver_inv adder zero target (numbers, subsets, output) \<Longrightarrow> numbers \<noteq> [] \<Longrightarrow>
     roundcount + total_size subsets < 9999999 \<Longrightarrow>
     \<exists>out. rounds enum adder roundcount (numbers, subsets, output) = Inr (Some out) \<and>
       length out = length output \<and> (\<forall>k < length output. out ! k = target k)"
proof (induction "total_size subsets" arbitrary: roundcount numbers subsets "output" rule: less_induct)
  case less
  note inv = less.prems(1)
  let ?pairs = "pairs_by_count_of (length numbers) (count_pairs enum subsets)"
  have rc: "\<not> roundcount \<ge> 9999999" and ne: "length numbers \<noteq> 0"
    using less.prems by auto
  show ?case
  proof (cases ?pairs)
    case Nil
    obtain out' where "finish enum adder numbers subsets output = Inr out'"
      "length out' = length output" "\<forall>k < length output. out' ! k = target k"
      using finish_inv [OF ga so inv] by blast
    then show ?thesis
      using rc ne Nil by (subst rounds.simps) (simp add: Let_def)
  next
    case (Cons p ps)
    obtain x y where p: "p = (x, y)" by (cases p)
    have mem: "x' < y' \<and> (\<exists>(k, S) \<in> set subsets. x' \<in> S \<and> y' \<in> S)"
      if "(x', y') \<in> set ?pairs" for x' y'
      using so solver_inv_finite [OF inv] that by (rule pairs_by_count_member)
    have valid: "x' < y' \<and> y' < length numbers" if m: "(x', y') \<in> set ?pairs" for x' y'
    proof -
      obtain k S where "(k, S) \<in> set subsets" "y' \<in> S" "x' < y'"
        using mem [OF m] by auto
      then show ?thesis using solver_inv_entry [OF inv] by blast
    qed
    have xy: "x < y" "y < length numbers" using valid [of x y] Cons by (auto simp: p)
    then have x: "x < length numbers" and neq: "x \<noteq> y" by auto
    obtain k0 S0 where first: "(k0, S0) \<in> set subsets" "x \<in> S0" "y \<in> S0"
      using mem [of x y] Cons by (auto simp: p)
    let ?v = "adder (numbers ! x) (numbers ! y)"
    let ?numbers1 = "numbers @ [?v]"
    let ?subsets1 = "fst (rewrite x y (length numbers) ?v subsets output)"
    let ?output1 = "snd (rewrite x y (length numbers) ?v subsets output)"
    have step: "merge_pairs adder ?pairs {} (numbers, subsets, output) =
                merge_pairs adder ps {x, y} (?numbers1, ?subsets1, ?output1)"
      unfolding Cons p using x xy(2) by (subst merge_pairs_Cons_merge) simp_all
    have inv1: "solver_inv adder zero target (?numbers1, ?subsets1, ?output1)"
      using ga inv x xy(2) neq by (rule rewrite_inv)
    have size1: "total_size ?subsets1 < total_size subsets"
      using solver_inv_finite [OF inv] neq first by (rule rewrite_total_size_less)
    have len1: "length ?output1 = length output" by (rule rewrite_length)
    have rest1: "\<forall>(x, y) \<in> set ps. x < y \<and> y < length ?numbers1"
    proof (clarify)
      fix x' y' assume "(x', y') \<in> set ps"
      then have "(x', y') \<in> set ?pairs" by (simp add: Cons)
      then show "x' < y' \<and> y' < length ?numbers1" using valid [of x' y'] by simp
    qed
    obtain numbers' subsets' output' where
      m: "merge_pairs adder ps {x, y} (?numbers1, ?subsets1, ?output1) = Inr (numbers', subsets', output')"
      and inv': "solver_inv adder zero target (numbers', subsets', output')"
      and len': "length output' = length ?output1"
      and size': "total_size subsets' \<le> total_size ?subsets1"
      and nlen': "length ?numbers1 \<le> length numbers'"
      using merge_pairs_inv [OF ga rest1 inv1, of "{x, y}"] by blast
    have "\<exists>out. rounds enum adder (roundcount + 1) (numbers', subsets', output') = Inr (Some out) \<and>
       length out = length output' \<and> (\<forall>k < length output'. out ! k = target k)"
    proof (rule less.hyps)
      show "total_size subsets' < total_size subsets" using size' size1 by simp
      show "solver_inv adder zero target (numbers', subsets', output')" by (rule inv')
      show "numbers' \<noteq> []" using nlen' by auto
      show "roundcount + 1 + total_size subsets' < 9999999"
        using size' size1 less.prems(3) by simp
    qed
    moreover have "rounds enum adder roundcount (numbers, subsets, output) =
                   rounds enum adder (roundcount + 1) (numbers', subsets', output')"
      using rc ne Cons step m by (subst rounds.simps) (simp add: Let_def)
    ultimately show ?thesis using len' len1 by simp
  qed
qed

section \<open>\<^verbatim>\<open>multisubset\<close> returns the subset sums\<close>

lemma initial_inv:
  assumes valid: "\<forall>S \<in> set subsets. \<forall>i \<in> S. i < length numbers"
  shows "solver_inv adder zero (\<lambda>k. subset_sum adder zero numbers (subsets ! k))
           (numbers, zip [0..<length subsets] subsets, replicate (length subsets) zero)"
proof (rule solver_invI)
  show "distinct (map fst (zip [0..<length subsets] subsets))" by simp
next
  fix k S assume "(k, S) \<in> set (zip [0..<length subsets] subsets)"
  then have k: "k < length subsets" and S: "S = subsets ! k"
    by (auto simp: set_zip)
  then have v: "\<forall>i \<in> S. i < length numbers" using valid nth_mem [of k subsets] by blast
  then have "finite S" using finite_nat_set_iff_bounded by blast
  then show "finite S \<and> (\<forall>i\<in>S. i < length numbers) \<and>
        k < length (replicate (length subsets) zero) \<and>
        replicate (length subsets) zero ! k = zero \<and>
        subset_sum adder zero numbers S = subset_sum adder zero numbers (subsets ! k)"
    using k S v by simp
next
  fix k assume k: "k < length (replicate (length subsets) zero)"
    and dead: "k \<notin> fst ` set (zip [0..<length subsets] subsets)"
  have "map fst (zip [0..<length subsets] subsets) = [0..<length subsets]"
    by (rule map_fst_zip) simp
  then have "set (map fst (zip [0..<length subsets] subsets)) = {0..<length subsets}"
    by (simp only: set_upt)
  then have "fst ` set (zip [0..<length subsets] subsets) = {0..<length subsets}"
    by (simp only: set_map)
  then have False using k dead by simp
  then show "replicate (length subsets) zero ! k = subset_sum adder zero numbers (subsets ! k)" ..
qed

lemma initial_total_size:
  "total_size (zip [0..<length subsets] subsets) = sum_list (map card subsets)"
proof -
  have "map snd (zip [0..<length subsets] subsets) = subsets"
    by (rule map_snd_zip) simp
  then have "map card (map snd (zip [0..<length subsets] subsets)) = map card subsets"
    by (rule arg_cong)
  moreover have "map (\<lambda>(k, S). card S) (zip [0..<length subsets] subsets) =
        map card (map snd (zip [0..<length subsets] subsets))"
    unfolding map_map by (rule map_cong) auto
  ultimately show ?thesis by (simp only: total_size_def)
qed

lemma multisubset_sums:
  assumes "group_adder adder zero" and "set_order enum" and "numbers \<noteq> []"
    and "\<forall>S \<in> set subsets. \<forall>i \<in> S. i < length numbers"
    and "sum_list (map card subsets) < 9999999"
  shows "multisubset enum numbers subsets adder zero =
         Inr (Some (map (subset_sum adder zero numbers) subsets))"
proof -
  let ?target = "\<lambda>k. subset_sum adder zero numbers (subsets ! k)"
  let ?m = "length subsets"
  obtain out where r: "rounds enum adder 0 (numbers, zip [0..<?m] subsets, replicate ?m zero) = Inr (Some out)"
    and len: "length out = ?m" and val: "\<forall>k < ?m. out ! k = ?target k"
    using rounds_correct [OF assms(1,2) initial_inv [OF assms(4)] assms(3), of 0]
      assms(5) by (auto simp: initial_total_size)
  have "out = map (subset_sum adder zero numbers) subsets"
    using len val by (intro nth_equalityI) simp_all
  then show ?thesis using r by (simp add: multisubset_def)
qed

lemma group_adder_int: "group_adder ((+) :: int \<Rightarrow> int \<Rightarrow> int) 0"
  by (simp add: group_adder_def)

lemma set_order_sorted: "set_order sorted_list_of_set"
  by (simp add: set_order_def)

section \<open>\<^verbatim>\<open>multisubset2\<close> returns the subset sums\<close>

lemma pad_numbers_shape:
  "partition_size \<noteq> 0 \<Longrightarrow>
   \<exists>p. pad_numbers partition_size zero numbers = numbers @ replicate p zero \<and>
       (length numbers + p) mod partition_size = 0"
proof (induction partition_size zero numbers rule: pad_numbers.induct)
  case (1 partition_size zero numbers)
  note nz = "1.prems"
  show ?case
  proof (cases "length numbers mod partition_size \<noteq> 0")
    case True
    have c: "partition_size \<noteq> 0 \<and> length numbers mod partition_size \<noteq> 0"
      using nz True by simp
    have "\<exists>p. pad_numbers partition_size zero (numbers @ [zero]) = (numbers @ [zero]) @ replicate p zero \<and>
       (length (numbers @ [zero]) + p) mod partition_size = 0"
      using c nz by (rule "1.IH")
    then obtain p where
      p1: "pad_numbers partition_size zero (numbers @ [zero]) = (numbers @ [zero]) @ replicate p zero"
      and p2: "(length (numbers @ [zero]) + p) mod partition_size = 0"
      by (elim exE conjE)
    have "pad_numbers partition_size zero numbers = pad_numbers partition_size zero (numbers @ [zero])"
      using c by (subst pad_numbers.simps) simp
    also have "\<dots> = numbers @ replicate (Suc p) zero"
      unfolding p1 by (simp add: replicate_app_Cons_same)
    finally have e: "pad_numbers partition_size zero numbers = numbers @ replicate (Suc p) zero" .
    have "(length numbers + Suc p) mod partition_size = 0" using p2 by simp
    with e show ?thesis by (intro exI [of _ "Suc p"] conjI)
  next
    case False
    then have "pad_numbers partition_size zero numbers = numbers"
      by (subst pad_numbers.simps) simp
    then show ?thesis using False by (intro exI [of _ 0]) simp
  qed
qed

lemma mask_of_0: "mask_of 0 P = 0"
  by (simp add: mask_of_def)

lemma mask_of_Suc: "mask_of (Suc c) P = mask_of c P + (if P c then 2 ^ c else 0)"
  by (simp add: mask_of_def)

lemma mask_of_less: "mask_of c P < 2 ^ c"
  by (induction c) (auto simp: mask_of_0 mask_of_Suc)

lemma new_power_set_of_snoc:
  "new_power_set_of adder zero (part @ [v]) =
     new_power_set_of adder zero part @ map (\<lambda>n. adder n v) (new_power_set_of adder zero part)"
  by (simp add: new_power_set_of_def)

lemma length_new_power_set_of: "length (new_power_set_of adder zero part) = 2 ^ length part"
  by (induction part rule: rev_induct) (simp_all add: new_power_set_of_snoc, simp add: new_power_set_of_def)

lemma new_power_set_of_nth:
  "new_power_set_of adder zero part ! mask_of (length part) P =
     adder_fold adder zero (map (\<lambda>j. part ! j) (filter P [0..<length part]))"
proof (induction part rule: rev_induct)
  case Nil
  show ?case by (simp add: new_power_set_of_def mask_of_0 adder_fold_def)
next
  case (snoc v part)
  let ?ps = "new_power_set_of adder zero part"
  let ?c = "length part"
  have lt: "mask_of ?c P < length ?ps"
    by (simp add: length_new_power_set_of mask_of_less)
  have same: "map (\<lambda>j. (part @ [v]) ! j) (filter P [0..<?c]) = map (\<lambda>j. part ! j) (filter P [0..<?c])"
    by (simp add: nth_append)
  show ?case
  proof (cases "P ?c")
    case True
    have "new_power_set_of adder zero (part @ [v]) ! mask_of (length (part @ [v])) P =
          (?ps @ map (\<lambda>n. adder n v) ?ps) ! (length ?ps + mask_of ?c P)"
      using True by (simp add: new_power_set_of_snoc mask_of_Suc length_new_power_set_of add.commute)
    also have "\<dots> = adder (?ps ! mask_of ?c P) v"
      using lt by (simp add: nth_append)
    also have "\<dots> = adder_fold adder zero (map (\<lambda>j. part ! j) (filter P [0..<?c]) @ [v])"
      using snoc.IH by (simp add: adder_fold_def)
    also have "map (\<lambda>j. part ! j) (filter P [0..<?c]) @ [v] =
               map (\<lambda>j. (part @ [v]) ! j) (filter P [0..<length (part @ [v])])"
      using True same by simp
    finally show ?thesis .
  next
    case False
    have "new_power_set_of adder zero (part @ [v]) ! mask_of (length (part @ [v])) P =
          ?ps ! mask_of ?c P"
      using False lt by (simp add: new_power_set_of_snoc mask_of_Suc nth_append)
    also have "\<dots> = adder_fold adder zero (map (\<lambda>j. part ! j) (filter P [0..<?c]))"
      using snoc.IH by simp
    also have "map (\<lambda>j. part ! j) (filter P [0..<?c]) =
               map (\<lambda>j. (part @ [v]) ! j) (filter P [0..<length (part @ [v])])"
      using False same by simp
    finally show ?thesis .
  qed
qed

lemma index_in_power_set_of_mask:
  "index_in_power_set_of partition_size i sub = mask_of partition_size (\<lambda>j. i * partition_size + j \<in> sub)"
  by (simp add: index_in_power_set_of_def mask_of_def)


lemma sum_partitions_ok:
  "\<forall>i \<in> set idxs. i < length power_sets \<and>
       index_in_power_set_of partition_size i sub < length (power_sets ! i) \<Longrightarrow>
   sum_partitions adder partition_size power_sets sub idxs acc =
     Inr (foldl (\<lambda>acc i. adder acc (power_sets ! i ! index_in_power_set_of partition_size i sub))
            acc idxs)"
  by (induction idxs arbitrary: acc) (simp_all add: Let_def)

lemma subset_sums_of_ok:
  "\<forall>sub \<in> set subsets. \<forall>i < length power_sets.
       index_in_power_set_of partition_size i sub < length (power_sets ! i) \<Longrightarrow>
   subset_sums_of adder zero partition_size power_sets subsets =
     Inr (map (\<lambda>sub. foldl (\<lambda>acc i. adder acc
                 (power_sets ! i ! index_in_power_set_of partition_size i sub))
               zero [0..<length power_sets]) subsets)"
proof (induction subsets)
  case Nil
  show ?case by simp
next
  case (Cons sub subsets)
  have "sum_partitions adder partition_size power_sets sub [0..<length power_sets] zero =
     Inr (foldl (\<lambda>acc i. adder acc (power_sets ! i ! index_in_power_set_of partition_size i sub))
            zero [0..<length power_sets])"
    using Cons.prems by (intro sum_partitions_ok) simp
  moreover have "subset_sums_of adder zero partition_size power_sets subsets =
     Inr (map (\<lambda>sub. foldl (\<lambda>acc i. adder acc
                 (power_sets ! i ! index_in_power_set_of partition_size i sub))
               zero [0..<length power_sets]) subsets)"
    using Cons.prems by (intro Cons.IH) simp
  ultimately show ?case by simp
qed

lemma length_power_sets_of:
  "partition_size \<noteq> 0 \<Longrightarrow> length numbers = q * partition_size \<Longrightarrow>
   length (power_sets_of adder zero partition_size numbers) = q"
proof -
  assume k: "partition_size \<noteq> 0" and len: "length numbers = q * partition_size"
  have "(q * partition_size + partition_size - 1) div partition_size = q"
  proof (rule div_nat_eqI)
    show "partition_size * q \<le> q * partition_size + partition_size - 1"
      using k by (simp add: mult.commute)
    show "q * partition_size + partition_size - 1 < partition_size * Suc q"
      using k by (simp add: mult.commute)
  qed
  then show ?thesis by (simp add: power_sets_of_def len)
qed

lemma power_sets_of_nth:
  "i < length (power_sets_of adder zero partition_size numbers) \<Longrightarrow>
   power_sets_of adder zero partition_size numbers ! i =
     new_power_set_of adder zero (take partition_size (drop (i * partition_size) numbers))"
  by (simp add: power_sets_of_def)

lemma part_values:
  assumes "i * k + k \<le> length numbers"
  shows "map (\<lambda>j. take k (drop (i * k) numbers) ! j) (filter (\<lambda>j. i * k + j \<in> S) [0..<k]) =
         map (\<lambda>t. numbers ! t) (filter (\<lambda>t. t \<in> S) [i * k..<i * k + k])"
proof -
  have "[i * k..<i * k + k] = map (\<lambda>j. i * k + j) [0..<k]"
    by (simp add: map_add_upt add.commute)
  then have "map (\<lambda>t. numbers ! t) (filter (\<lambda>t. t \<in> S) [i * k..<i * k + k]) =
        map (\<lambda>j. numbers ! (i * k + j)) (filter (\<lambda>j. i * k + j \<in> S) [0..<k])"
    by (simp add: filter_map o_def)
  also have "\<dots> = map (\<lambda>j. take k (drop (i * k) numbers) ! j) (filter (\<lambda>j. i * k + j \<in> S) [0..<k])"
    using assms by (intro map_cong) auto
  finally show ?thesis by simp
qed

lemma fold_partitions:
  assumes ga: "group_adder adder zero"
  shows "foldl (\<lambda>acc i. adder acc
            (adder_fold adder zero (map (\<lambda>t. numbers ! t) (filter (\<lambda>t. t \<in> S) [i * k..<i * k + k]))))
          acc [0..<q] =
         adder acc (adder_fold adder zero (map (\<lambda>t. numbers ! t) (filter (\<lambda>t. t \<in> S) [0..<q * k])))"
proof (induction q)
  case 0
  show ?case by (simp add: adder_fold_Nil group_adder_right_zero [OF ga])
next
  case (Suc q)
  let ?g = "\<lambda>i. adder_fold adder zero (map (\<lambda>t. numbers ! t) (filter (\<lambda>t. t \<in> S) [i * k..<i * k + k]))"
  let ?A = "adder_fold adder zero (map (\<lambda>t. numbers ! t) (filter (\<lambda>t. t \<in> S) [0..<q * k]))"
  have "[0..<q * k + k] = [0..<q * k] @ [q * k..<q * k + k]"
    by (rule upt_add_eq_append) simp
  moreover have "Suc q * k = q * k + k" by simp
  ultimately have split: "[0..<Suc q * k] = [0..<q * k] @ [q * k..<q * k + k]"
    by (simp only:)
  have "foldl (\<lambda>acc i. adder acc (?g i)) acc [0..<Suc q] =
        adder (foldl (\<lambda>acc i. adder acc (?g i)) acc [0..<q]) (?g q)"
    by simp
  also have "\<dots> = adder (adder acc ?A) (?g q)"
    by (simp only: Suc.IH)
  also have "\<dots> = adder acc (adder ?A (?g q))"
    by (rule group_adder_assoc [OF ga])
  also have "adder ?A (?g q) =
        adder_fold adder zero (map (\<lambda>t. numbers ! t) (filter (\<lambda>t. t \<in> S) [0..<Suc q * k]))"
    by (simp only: split filter_append map_append adder_fold_append [OF ga])
  finally show ?case .
qed

lemma adder_fold_zeros:
  assumes "adder zero zero = zero" and "\<forall>x \<in> set xs. x = zero"
  shows "adder_fold adder zero xs = zero"
  using assms(2) unfolding adder_fold_def
  by (induction xs rule: rev_induct) (simp_all add: assms(1))

lemma filter_upt_sorted_list:
  "filter (\<lambda>t. t \<in> S) [0..<n] = sorted_list_of_set (S \<inter> {..<n})"
proof -
  have "sorted_list_of_set (set (filter (\<lambda>t. t \<in> S) [0..<n])) = filter (\<lambda>t. t \<in> S) [0..<n]"
    by (intro sorted_list_of_set.idem_if_sorted_distinct sorted_wrt_filter) simp_all
  moreover have "set (filter (\<lambda>t. t \<in> S) [0..<n]) = S \<inter> {..<n}" by auto
  ultimately show ?thesis by simp
qed

lemma padded_sum:
  assumes ga: "group_adder adder zero"
  shows "adder_fold adder zero
           (map (\<lambda>t. (numbers @ replicate p zero) ! t) (filter (\<lambda>t. t \<in> S) [0..<length numbers + p])) =
         subset_sum adder zero numbers (S \<inter> {..<length numbers})"
proof -
  let ?n = "length numbers"
  let ?padded = "numbers @ replicate p zero"
  let ?low = "map (\<lambda>t. ?padded ! t) (filter (\<lambda>t. t \<in> S) [0..<?n])"
  let ?high = "map (\<lambda>t. ?padded ! t) (filter (\<lambda>t. t \<in> S) [?n..<?n + p])"
  have split: "[0..<?n + p] = [0..<?n] @ [?n..<?n + p]"
    by (rule upt_add_eq_append) simp
  have low: "?low = map (\<lambda>t. numbers ! t) (filter (\<lambda>t. t \<in> S) [0..<?n])"
    by (rule map_cong) (simp_all add: nth_append)
  have "\<forall>x \<in> set ?high. x = zero"
    by (auto simp: nth_append)
  then have high: "adder_fold adder zero ?high = zero"
    by (intro adder_fold_zeros) (simp_all add: group_adder_left_zero [OF ga])
  have "adder_fold adder zero (map (\<lambda>t. ?padded ! t) (filter (\<lambda>t. t \<in> S) [0..<?n + p])) =
        adder (adder_fold adder zero ?low) (adder_fold adder zero ?high)"
    by (simp only: split filter_append map_append adder_fold_append [OF ga])
  also have "\<dots> = adder_fold adder zero ?low"
    by (simp only: high group_adder_right_zero [OF ga])
  also have "\<dots> = adder_fold adder zero (map (\<lambda>t. numbers ! t) (filter (\<lambda>t. t \<in> S) [0..<?n]))"
    by (simp only: low)
  also have "\<dots> = subset_sum adder zero numbers (S \<inter> {..<?n})"
    by (simp only: subset_sum_def filter_upt_sorted_list)
  finally show ?thesis .
qed

lemma multisubset2_setup:
  fixes numbers :: "'a list"
  obtains k p where "k = 1 + int_log (length subsets + 1)"
    and "pad_numbers k zero numbers = numbers @ replicate p zero"
    and "(length numbers + p) mod k = 0"
proof -
  have "1 + int_log (length subsets + 1) \<noteq> 0" by simp
  from pad_numbers_shape [OF this, of zero numbers] obtain p where
    p1: "pad_numbers (1 + int_log (length subsets + 1)) zero numbers = numbers @ replicate p zero"
    and p2: "(length numbers + p) mod (1 + int_log (length subsets + 1)) = 0"
    by (elim exE conjE)
  show thesis using refl p1 p2 by (rule that)
qed

lemma multisubset2_fold:
  fixes numbers :: "'a list"
  assumes k: "k = 1 + int_log (length subsets + 1)"
    and pad: "pad_numbers k zero numbers = numbers @ replicate p zero"
    and len: "length numbers + p = q * k"
  shows "multisubset2 numbers subsets adder zero =
     Inr (map (\<lambda>sub. foldl (\<lambda>acc i. adder acc
             (adder_fold adder zero
                (map (\<lambda>t. (numbers @ replicate p zero) ! t) (filter (\<lambda>t. t \<in> sub) [i * k..<i * k + k]))))
           zero [0..<q]) subsets)"
proof -
  let ?padded = "numbers @ replicate p zero"
  let ?ps = "power_sets_of adder zero k ?padded"
  have k0: "k \<noteq> 0" using k by simp
  have lenp: "length ?padded = q * k" using len by simp
  have lps: "length ?ps = q" using k0 lenp by (rule length_power_sets_of)
  have part_len: "length (take k (drop (i * k) ?padded)) = k" if "i < q" for i
  proof -
    have "Suc i * k \<le> q * k" using that by (intro mult_le_mono1) simp
    then show ?thesis using lenp by simp
  qed
  have bound: "i * k + k \<le> length ?padded" if "i < q" for i
  proof -
    have "Suc i * k \<le> q * k" using that by (intro mult_le_mono1) simp
    then show ?thesis using lenp by (simp add: add.commute)
  qed
  have entry: "?ps ! i ! index_in_power_set_of k i sub =
        adder_fold adder zero (map (\<lambda>t. ?padded ! t) (filter (\<lambda>t. t \<in> sub) [i * k..<i * k + k]))"
    if i: "i < q" for i sub
  proof -
    let ?part = "take k (drop (i * k) ?padded)"
    have "?ps ! i = new_power_set_of adder zero ?part"
      using i lps by (intro power_sets_of_nth) simp
    then have "?ps ! i ! index_in_power_set_of k i sub =
          new_power_set_of adder zero ?part ! mask_of k (\<lambda>j. i * k + j \<in> sub)"
      by (simp only: index_in_power_set_of_mask)
    also have "\<dots> = new_power_set_of adder zero ?part ! mask_of (length ?part) (\<lambda>j. i * k + j \<in> sub)"
      by (simp only: part_len [OF i])
    also have "\<dots> = adder_fold adder zero
          (map (\<lambda>j. ?part ! j) (filter (\<lambda>j. i * k + j \<in> sub) [0..<length ?part]))"
      by (rule new_power_set_of_nth)
    also have "\<dots> = adder_fold adder zero
          (map (\<lambda>j. ?part ! j) (filter (\<lambda>j. i * k + j \<in> sub) [0..<k]))"
      by (simp only: part_len [OF i])
    also have "\<dots> = adder_fold adder zero (map (\<lambda>t. ?padded ! t) (filter (\<lambda>t. t \<in> sub) [i * k..<i * k + k]))"
      by (simp only: part_values [OF bound [OF i]])
    finally show ?thesis .
  qed
  have inrange: "\<forall>sub \<in> set subsets. \<forall>i < length ?ps. index_in_power_set_of k i sub < length (?ps ! i)"
  proof (intro ballI allI impI)
    fix sub i assume "i < length ?ps"
    then have i: "i < q" using lps by simp
    have "length (?ps ! i) = 2 ^ k"
      using i lps by (simp only: power_sets_of_nth length_new_power_set_of part_len [OF i])
    then show "index_in_power_set_of k i sub < length (?ps ! i)"
      by (simp add: index_in_power_set_of_mask mask_of_less)
  qed
  have "multisubset2 numbers subsets adder zero = subset_sums_of adder zero k ?ps subsets"
    unfolding multisubset2_def Let_def k [symmetric] pad ..
  also have "\<dots> = Inr (map (\<lambda>sub. foldl (\<lambda>acc i. adder acc (?ps ! i ! index_in_power_set_of k i sub))
               zero [0..<length ?ps]) subsets)"
    using inrange by (rule subset_sums_of_ok)
  also have "map (\<lambda>sub. foldl (\<lambda>acc i. adder acc (?ps ! i ! index_in_power_set_of k i sub))
               zero [0..<length ?ps]) subsets =
     map (\<lambda>sub. foldl (\<lambda>acc i. adder acc
             (adder_fold adder zero
                (map (\<lambda>t. ?padded ! t) (filter (\<lambda>t. t \<in> sub) [i * k..<i * k + k]))))
           zero [0..<q]) subsets"
    unfolding lps by (intro map_cong refl foldl_cong) (simp_all add: entry)
  finally show ?thesis .
qed

lemma multisubset2_returns:
  "\<exists>subset_sums. multisubset2 numbers subsets adder zero = Inr subset_sums \<and>
       length subset_sums = length subsets"
proof -
  obtain k p where k: "k = 1 + int_log (length subsets + 1)"
    and pad: "pad_numbers k zero numbers = numbers @ replicate p zero"
    and m: "(length numbers + p) mod k = 0"
    by (rule multisubset2_setup)
  from m have "k dvd length numbers + p" by (simp add: mod_eq_0_iff_dvd)
  then obtain q where "length numbers + p = q * k"
    by (metis dvd_def mult.commute)
  from multisubset2_fold [OF k pad this, of adder] show ?thesis by simp
qed

lemma multisubset2_sums:
  assumes ga: "group_adder adder zero"
  shows "multisubset2 numbers subsets adder zero =
         Inr (map (\<lambda>sub. subset_sum adder zero numbers (sub \<inter> {..<length numbers})) subsets)"
proof -
  obtain k p where k: "k = 1 + int_log (length subsets + 1)"
    and pad: "pad_numbers k zero numbers = numbers @ replicate p zero"
    and m: "(length numbers + p) mod k = 0"
    by (rule multisubset2_setup)
  from m have "k dvd length numbers + p" by (simp add: mod_eq_0_iff_dvd)
  then obtain q where q: "length numbers + p = q * k"
    by (metis dvd_def mult.commute)
  have "foldl (\<lambda>acc i. adder acc
             (adder_fold adder zero
                (map (\<lambda>t. (numbers @ replicate p zero) ! t) (filter (\<lambda>t. t \<in> sub) [i * k..<i * k + k]))))
           zero [0..<q] = subset_sum adder zero numbers (sub \<inter> {..<length numbers})" for sub
    unfolding fold_partitions [OF ga] q [symmetric] padded_sum [OF ga]
    by (simp add: group_adder_left_zero [OF ga])
  then show ?thesis
    unfolding multisubset2_fold [OF k pad q] by simp
qed

section \<open>\<^verbatim>\<open>lincomb\<close> returns the weighted sum\<close>

text \<open>
  The recombination loop is Horner's rule in base two; the subset of bit \<open>j\<close> sums the
  elements whose factor has that bit, so the result weights each element by the low
  \<open>maxbitlen + 1\<close> bits of its factor, read in two's complement.
\<close>

lemma repeat_add_0: "repeat_add adder zero 0 x = zero"
  by (simp add: repeat_add_def)

lemma repeat_add_Suc: "repeat_add adder zero (Suc n) x = adder (repeat_add adder zero n x) x"
  by (simp add: repeat_add_def)

lemma repeat_add_1:
  assumes ga: "group_adder adder zero"
  shows "repeat_add adder zero (Suc 0) x = x"
  by (simp add: repeat_add_Suc repeat_add_0 group_adder_left_zero [OF ga])

lemma repeat_add_add:
  assumes ga: "group_adder adder zero"
  shows "repeat_add adder zero (a + b) x =
         adder (repeat_add adder zero a x) (repeat_add adder zero b x)"
proof (induction b)
  case 0
  show ?case by (simp add: repeat_add_0 group_adder_right_zero [OF ga])
next
  case (Suc b)
  have "repeat_add adder zero (a + Suc b) x = adder (repeat_add adder zero (a + b) x) x"
    by (simp add: repeat_add_Suc)
  also have "\<dots> = adder (adder (repeat_add adder zero a x) (repeat_add adder zero b x)) x"
    by (simp only: Suc.IH)
  also have "\<dots> = adder (repeat_add adder zero a x) (adder (repeat_add adder zero b x) x)"
    by (rule group_adder_assoc [OF ga])
  finally show ?case by (simp only: repeat_add_Suc)
qed

lemma adder_interchange:
  assumes ga: "group_adder adder zero"
  shows "adder (adder a b) (adder c d) = adder (adder a c) (adder b d)"
proof -
  have "adder (adder a b) (adder c d) = adder a (adder b (adder c d))"
    by (rule group_adder_assoc [OF ga])
  also have "adder b (adder c d) = adder (adder b c) d"
    by (rule group_adder_assoc [OF ga, symmetric])
  also have "adder b c = adder c b" by (rule group_adder_commute [OF ga])
  also have "adder (adder c b) d = adder c (adder b d)" by (rule group_adder_assoc [OF ga])
  also have "adder a (adder c (adder b d)) = adder (adder a c) (adder b d)"
    by (rule group_adder_assoc [OF ga, symmetric])
  finally show ?thesis .
qed

lemma repeat_add_zero:
  assumes ga: "group_adder adder zero"
  shows "repeat_add adder zero n zero = zero"
  by (induction n) (simp_all add: repeat_add_0 repeat_add_Suc group_adder_left_zero [OF ga])

lemma repeat_add_adder:
  assumes ga: "group_adder adder zero"
  shows "repeat_add adder zero n (adder x y) =
         adder (repeat_add adder zero n x) (repeat_add adder zero n y)"
proof (induction n)
  case 0
  show ?case by (simp add: repeat_add_0 group_adder_left_zero [OF ga])
next
  case (Suc n)
  show ?case
    unfolding repeat_add_Suc Suc.IH by (rule adder_interchange [OF ga])
qed

lemma repeat_add_double:
  assumes ga: "group_adder adder zero"
  shows "repeat_add adder zero n (adder x x) = repeat_add adder zero (2 * n) x"
proof -
  have "repeat_add adder zero (n + n) x = adder (repeat_add adder zero n x) (repeat_add adder zero n x)"
    by (rule repeat_add_add [OF ga])
  then show ?thesis by (simp add: repeat_add_adder [OF ga] mult_2)
qed

lemma adder_fold_snoc: "adder_fold adder zero (xs @ [x]) = adder (adder_fold adder zero xs) x"
  by (simp add: adder_fold_def)


lemma recombine_step:
  "i < length subset_sums \<Longrightarrow>
   recombine adder subset_sums (i # rest) (acc, calls) =
   recombine adder subset_sums rest (adder (adder acc acc) (subset_sums ! i), calls + 2)"
  by simp

lemma recombine_horner:
  assumes ga: "group_adder adder zero"
  shows "m \<le> length subset_sums \<Longrightarrow>
     recombine adder subset_sums (rev [0..<m]) (acc, calls) =
       Inr (adder (repeat_add adder zero (2 ^ m) acc)
              (adder_fold adder zero
                 (map (\<lambda>j. repeat_add adder zero (2 ^ j) (subset_sums ! j)) [0..<m])),
            calls + 2 * m)"
proof (induction m arbitrary: acc calls)
  case 0
  show ?case
    by (simp add: adder_fold_Nil repeat_add_1 [OF ga] group_adder_right_zero [OF ga])
next
  case (Suc m)
  let ?R = "repeat_add adder zero"
  let ?s = "subset_sums ! m"
  let ?acc' = "adder (adder acc acc) ?s"
  let ?AF = "adder_fold adder zero (map (\<lambda>j. ?R (2 ^ j) (subset_sums ! j)) [0..<m])"
  have m: "m < length subset_sums" and m': "m \<le> length subset_sums" using Suc.prems by simp_all
  have "recombine adder subset_sums (rev [0..<Suc m]) (acc, calls) =
        recombine adder subset_sums (rev [0..<m]) (?acc', calls + 2)"
    using m by (simp only: upt_Suc_append [OF le0] rev_append rev.simps append.simps recombine_step)
  also have "\<dots> = Inr (adder (?R (2 ^ m) ?acc') ?AF, calls + 2 + 2 * m)"
    using m' by (rule Suc.IH)
  also have "?R (2 ^ m) ?acc' = adder (?R (2 ^ Suc m) acc) (?R (2 ^ m) ?s)"
  proof -
    have "?R (2 ^ m) ?acc' = adder (?R (2 ^ m) (adder acc acc)) (?R (2 ^ m) ?s)"
      by (rule repeat_add_adder [OF ga])
    also have "?R (2 ^ m) (adder acc acc) = ?R (2 * 2 ^ m) acc"
      by (rule repeat_add_double [OF ga])
    finally show ?thesis by simp
  qed
  also have "adder (adder (?R (2 ^ Suc m) acc) (?R (2 ^ m) ?s)) ?AF =
             adder (?R (2 ^ Suc m) acc) (adder ?AF (?R (2 ^ m) ?s))"
    by (metis group_adder_assoc [OF ga] group_adder_commute [OF ga])
  also have "adder ?AF (?R (2 ^ m) ?s) =
             adder_fold adder zero (map (\<lambda>j. ?R (2 ^ j) (subset_sums ! j)) [0..<Suc m])"
    by (simp add: adder_fold_snoc)
  finally show ?case by simp
qed

lemma recombine_calls:
  "recombine adder subset_sums idxs (acc, calls) = Inr (acc', calls') \<Longrightarrow>
   calls' = calls + 2 * length idxs"
proof (induction idxs arbitrary: acc calls)
  case Nil
  then show ?case by simp
next
  case (Cons i idxs)
  show ?case
  proof (cases "i < length subset_sums")
    case True
    then have "recombine adder subset_sums idxs (adder (adder acc acc) (subset_sums ! i), calls + 2) =
               Inr (acc', calls')"
      using Cons.prems by simp
    then have "calls' = calls + 2 + 2 * length idxs" by (rule Cons.IH)
    then show ?thesis by simp
  next
    case False
    then show ?thesis using Cons.prems by simp
  qed
qed


lemma adder_fold_filter:
  assumes ga: "group_adder adder zero"
  shows "adder_fold adder zero (map f (filter P xs)) =
         adder_fold adder zero (map (\<lambda>x. if P x then f x else zero) xs)"
  by (induction xs)
     (simp_all add: adder_fold_Cons [OF ga] group_adder_left_zero [OF ga])

lemma adder_fold_pointwise:
  assumes ga: "group_adder adder zero"
  shows "adder (adder_fold adder zero (map f xs)) (adder_fold adder zero (map g xs)) =
         adder_fold adder zero (map (\<lambda>i. adder (f i) (g i)) xs)"
proof (induction xs)
  case Nil
  show ?case by (simp add: adder_fold_Nil group_adder_left_zero [OF ga])
next
  case (Cons x xs)
  have "adder (adder (f x) (adder_fold adder zero (map f xs)))
              (adder (g x) (adder_fold adder zero (map g xs))) =
        adder (adder (f x) (g x))
              (adder (adder_fold adder zero (map f xs)) (adder_fold adder zero (map g xs)))"
    by (rule adder_interchange [OF ga])
  then show ?case by (simp add: adder_fold_Cons [OF ga] Cons.IH)
qed

lemma repeat_add_adder_fold:
  assumes ga: "group_adder adder zero"
  shows "repeat_add adder zero n (adder_fold adder zero xs) =
         adder_fold adder zero (map (repeat_add adder zero n) xs)"
  by (induction xs)
     (simp_all add: adder_fold_Nil adder_fold_Cons [OF ga] repeat_add_zero [OF ga]
        repeat_add_adder [OF ga])

lemma weighted_bits:
  assumes ga: "group_adder adder zero"
  shows "adder_fold adder zero
           (map (\<lambda>j. repeat_add adder zero (2 ^ j)
                        (adder_fold adder zero (map (\<lambda>i. if P j i then e i else zero) xs)))
              [0..<m]) =
         adder_fold adder zero
           (map (\<lambda>i. repeat_add adder zero (\<Sum>j<m. if P j i then 2 ^ j else 0) (e i)) xs)"
proof (induction m)
  case 0
  have "adder_fold adder zero (map (\<lambda>i. repeat_add adder zero 0 (e i)) xs) = zero"
    by (rule adder_fold_zeros) (simp_all add: repeat_add_0 group_adder_left_zero [OF ga])
  then show ?case by (simp add: adder_fold_Nil)
next
  case (Suc m)
  let ?R = "repeat_add adder zero"
  let ?c = "\<lambda>m i. (\<Sum>j<m. if P j i then 2 ^ j else (0::nat))"
  let ?row = "\<lambda>j. ?R (2 ^ j) (adder_fold adder zero (map (\<lambda>i. if P j i then e i else zero) xs))"
  have step: "adder (?R (?c m i) (e i)) (?R (2 ^ m) (if P m i then e i else zero)) =
              ?R (?c (Suc m) i) (e i)" for i
  proof (cases "P m i")
    case True
    have "?R (?c m i + 2 ^ m) (e i) = adder (?R (?c m i) (e i)) (?R (2 ^ m) (e i))"
      by (rule repeat_add_add [OF ga])
    then show ?thesis using True by simp
  next
    case False
    then show ?thesis
      by (simp add: repeat_add_zero [OF ga] group_adder_right_zero [OF ga])
  qed
  have "adder_fold adder zero (map ?row [0..<Suc m]) =
        adder (adder_fold adder zero (map ?row [0..<m])) (?row m)"
    by (simp add: adder_fold_snoc)
  also have "\<dots> = adder (adder_fold adder zero (map (\<lambda>i. ?R (?c m i) (e i)) xs)) (?row m)"
    by (simp only: Suc.IH)
  also have "?row m = adder_fold adder zero (map (\<lambda>i. ?R (2 ^ m) (if P m i then e i else zero)) xs)"
    by (simp only: repeat_add_adder_fold [OF ga] map_map o_def)
  also have "adder (adder_fold adder zero (map (\<lambda>i. ?R (?c m i) (e i)) xs))
               (adder_fold adder zero (map (\<lambda>i. ?R (2 ^ m) (if P m i then e i else zero)) xs)) =
             adder_fold adder zero
               (map (\<lambda>i. adder (?R (?c m i) (e i)) (?R (2 ^ m) (if P m i then e i else zero))) xs)"
    by (rule adder_fold_pointwise [OF ga])
  also have "\<dots> = adder_fold adder zero (map (\<lambda>i. ?R (?c (Suc m) i) (e i)) xs)"
    by (simp only: step)
  finally show ?case .
qed

lemma sum_bits_take_bit:
  "(\<Sum>j<m. if bit (f :: int) j then 2 ^ j else 0) = nat (take_bit m f)"
proof (induction m)
  case 0
  show ?case by simp
next
  case (Suc m)
  have "take_bit (Suc m) f = 2 ^ m * of_bool (bit f m) + take_bit m f"
    by (rule take_bit_Suc_from_most)
  then have "nat (take_bit (Suc m) f) = (if bit f m then 2 ^ m else 0) + nat (take_bit m f)"
    by (simp add: nat_add_distrib nat_power_eq)
  then show ?case using Suc.IH by simp
qed

lemma length_bit_subsets: "length (bit_subsets n factors maxbitlen) = maxbitlen + 1"
  by (simp add: bit_subsets_def)

lemma bit_subsets_nth:
  "j < maxbitlen + 1 \<Longrightarrow>
   bit_subsets n factors maxbitlen ! j = set (filter (\<lambda>i. bit (factors ! i) j) [0..<n])"
proof -
  assume j: "j < maxbitlen + 1"
  have "(\<lambda>i. and (factors ! i) (push_bit j 1) \<noteq> 0) = (\<lambda>i. bit (factors ! i) j)"
    by (rule ext) (simp add: bit_iff_and_push_bit_not_eq_0)
  then show ?thesis using j
    by (simp only: bit_subsets_def nth_map_upt add_0 length_upt diff_zero)
qed

lemma bit_subsets_valid: "\<forall>S \<in> set (bit_subsets n factors maxbitlen). \<forall>i \<in> S. i < n"
  by (auto simp: bit_subsets_def)

lemma bit_subsets_size:
  "sum_list (map card (bit_subsets n factors maxbitlen)) \<le> n * (maxbitlen + 1)"
proof -
  have "card S \<le> n" if "S \<in> set (bit_subsets n factors maxbitlen)" for S
  proof -
    have "S \<subseteq> {..<n}" using bit_subsets_valid that by blast
    then have "card S \<le> card {..<n}" by (intro card_mono) simp_all
    then show ?thesis by simp
  qed
  then have "sum_list (map card (bit_subsets n factors maxbitlen)) \<le>
             sum_list (map (\<lambda>S. n) (bit_subsets n factors maxbitlen))"
    by (intro sum_list_mono) simp
  also have "\<dots> = n * (maxbitlen + 1)"
    by (simp add: sum_list_triv length_bit_subsets)
  finally show ?thesis .
qed

lemma subset_sum_filter:
  assumes ga: "group_adder adder zero"
  shows "subset_sum adder zero numbers (set (filter P [0..<n])) =
         adder_fold adder zero (map (\<lambda>i. if P i then numbers ! i else zero) [0..<n])"
proof -
  have "sorted_list_of_set (set (filter P [0..<n])) = filter P [0..<n]"
    by (intro sorted_list_of_set.idem_if_sorted_distinct sorted_wrt_filter) simp_all
  then have "subset_sum adder zero numbers (set (filter P [0..<n])) =
             adder_fold adder zero (map (\<lambda>i. numbers ! i) (filter P [0..<n]))"
    by (simp only: subset_sum_def)
  also have "\<dots> = adder_fold adder zero (map (\<lambda>i. if P i then numbers ! i else zero) [0..<n])"
    by (rule adder_fold_filter [OF ga])
  finally show ?thesis .
qed

lemma weighted_sum_indices:
  assumes "length numbers \<le> length factors"
  shows "weighted_sum adder zero numbers (map g factors) =
         adder_fold adder zero
           (map (\<lambda>i. repeat_add adder zero (nat (g (factors ! i))) (numbers ! i)) [0..<length numbers])"
proof -
  have "map (\<lambda>(x, f). repeat_add adder zero (nat f) x) (zip numbers (map g factors)) =
        map (\<lambda>i. repeat_add adder zero (nat (g (factors ! i))) (numbers ! i)) [0..<length numbers]"
    using assms by (intro nth_equalityI) simp_all
  then show ?thesis by (simp only: weighted_sum_def)
qed


lemma lincomb_counted_value:
  assumes ga: "group_adder adder zero" and so: "set_order enum" and ne: "numbers \<noteq> []"
    and len: "length numbers \<le> length factors"
    and cap: "length numbers * (maxbitlen_of factors + 1) < 9999999"
  shows "lincomb_counted enum numbers factors adder zero =
         Inr (weighted_sum adder zero numbers
                (map (\<lambda>f. f mod 2 ^ (maxbitlen_of factors + 1)) factors),
              2 * (maxbitlen_of factors + 1))"
proof -
  let ?n = "length numbers"
  let ?B = "maxbitlen_of factors"
  let ?m = "?B + 1"
  let ?subsets = "bit_subsets ?n factors ?B"
  let ?sums = "map (subset_sum adder zero numbers) ?subsets"
  let ?R = "repeat_add adder zero"
  have fne: "factors \<noteq> []" using ne len by auto
  have lenf: "\<not> length factors < length numbers" using len by simp
  have capS: "sum_list (map card ?subsets) < 9999999"
    using bit_subsets_size [of ?n factors ?B] cap by simp
  have ms: "multisubset enum numbers ?subsets adder zero = Inr (Some ?sums)"
    using ga so ne bit_subsets_valid capS by (rule multisubset_sums)
  have lsub: "length ?subsets = ?m" by (rule length_bit_subsets)
  have row: "?sums ! j =
     adder_fold adder zero (map (\<lambda>i. if bit (factors ! i) j then numbers ! i else zero) [0..<?n])"
    if j: "j < ?m" for j
  proof -
    have "?sums ! j = subset_sum adder zero numbers (?subsets ! j)"
      using j lsub by simp
    also have "\<dots> = subset_sum adder zero numbers (set (filter (\<lambda>i. bit (factors ! i) j) [0..<?n]))"
      by (simp only: bit_subsets_nth [OF j])
    also have "\<dots> = adder_fold adder zero
        (map (\<lambda>i. if bit (factors ! i) j then numbers ! i else zero) [0..<?n])"
      by (rule subset_sum_filter [OF ga])
    finally show ?thesis .
  qed
  have "recombine adder ?sums (rev [0..<?m]) (zero, 0) =
        Inr (adder (?R (2 ^ ?m) zero)
               (adder_fold adder zero (map (\<lambda>j. ?R (2 ^ j) (?sums ! j)) [0..<?m])),
             0 + 2 * ?m)"
    by (rule recombine_horner [OF ga]) (simp add: lsub)
  also have "adder (?R (2 ^ ?m) zero)
               (adder_fold adder zero (map (\<lambda>j. ?R (2 ^ j) (?sums ! j)) [0..<?m])) =
             adder_fold adder zero (map (\<lambda>j. ?R (2 ^ j) (?sums ! j)) [0..<?m])"
    by (simp only: repeat_add_zero [OF ga] group_adder_left_zero [OF ga])
  also have "map (\<lambda>j. ?R (2 ^ j) (?sums ! j)) [0..<?m] =
     map (\<lambda>j. ?R (2 ^ j) (adder_fold adder zero
            (map (\<lambda>i. if bit (factors ! i) j then numbers ! i else zero) [0..<?n]))) [0..<?m]"
  proof (rule map_cong [OF refl])
    fix j assume "j \<in> set [0..<?m]"
    then have "j < ?m" by (simp only: set_upt atLeastLessThan_iff)
    then show "?R (2 ^ j) (?sums ! j) = ?R (2 ^ j) (adder_fold adder zero
            (map (\<lambda>i. if bit (factors ! i) j then numbers ! i else zero) [0..<?n]))"
      by (simp only: row)
  qed
  also have "adder_fold adder zero \<dots> =
     adder_fold adder zero
       (map (\<lambda>i. ?R (\<Sum>j<?m. if bit (factors ! i) j then 2 ^ j else 0) (numbers ! i)) [0..<?n])"
    by (rule weighted_bits [OF ga])
  also have "\<dots> = adder_fold adder zero
       (map (\<lambda>i. ?R (nat (factors ! i mod 2 ^ ?m)) (numbers ! i)) [0..<?n])"
    by (simp only: sum_bits_take_bit take_bit_eq_mod)
  also have "\<dots> = weighted_sum adder zero numbers (map (\<lambda>f. f mod 2 ^ ?m) factors)"
    by (rule weighted_sum_indices [OF len, symmetric])
  finally have rec: "recombine adder ?sums (rev [0..<?m]) (zero, 0) =
        Inr (weighted_sum adder zero numbers (map (\<lambda>f. f mod 2 ^ ?m) factors), 2 * ?m)"
    by simp
  show ?thesis
    unfolding lincomb_counted_def Let_def using fne lenf ms rec lsub by simp
qed

lemma lincomb_value:
  assumes "group_adder adder zero" and "set_order enum" and "numbers \<noteq> []"
    and "length numbers \<le> length factors"
    and "length numbers * (maxbitlen_of factors + 1) < 9999999"
  shows "lincomb enum numbers factors adder zero =
         Inr (weighted_sum adder zero numbers
                (map (\<lambda>f. f mod 2 ^ (maxbitlen_of factors + 1)) factors))"
  unfolding lincomb_def lincomb_counted_value [OF assms] by simp

lemma bin_digits_bound: "n < 2 ^ bin_digits n"
proof (induction n rule: bin_digits.induct)
  case (1 n)
  show ?case
  proof (cases "n < 2")
    case True
    then show ?thesis by (subst bin_digits.simps) simp
  next
    case False
    then have "n div 2 < 2 ^ bin_digits (n div 2)" by (rule "1.IH")
    then have "n < 2 * 2 ^ bin_digits (n div 2)" by linarith
    then show ?thesis using False by (subst bin_digits.simps) simp
  qed
qed

lemma maxbitlen_ge:
  "f \<in> set factors \<Longrightarrow> len_bin f - 2 \<le> maxbitlen_of factors"
  unfolding maxbitlen_of_def by (intro Max_ge) auto

lemma nonneg_factor_small:
  assumes "f \<in> set factors" and "0 \<le> f"
  shows "f mod 2 ^ (maxbitlen_of factors + 1) = f"
proof -
  have "nat f < 2 ^ bin_digits (nat f)" by (rule bin_digits_bound)
  moreover have "bin_digits (nat f) \<le> maxbitlen_of factors"
    using maxbitlen_ge [OF assms(1)] assms(2) by (simp add: len_bin_def)
  then have "(2::nat) ^ bin_digits (nat f) \<le> 2 ^ (maxbitlen_of factors + 1)"
    by (intro power_increasing) simp_all
  ultimately have "nat f < 2 ^ (maxbitlen_of factors + 1)" by linarith
  then have "f < 2 ^ (maxbitlen_of factors + 1)"
    using assms(2) by (metis nat_less_iff of_nat_numeral of_nat_power)
  then show ?thesis using assms(2) by simp
qed

lemma lincomb_nonneg:
  assumes "group_adder adder zero" and "set_order enum" and "numbers \<noteq> []"
    and "length numbers \<le> length factors"
    and "length numbers * (maxbitlen_of factors + 1) < 9999999"
    and "\<forall>f \<in> set factors. 0 \<le> f"
  shows "lincomb enum numbers factors adder zero = Inr (weighted_sum adder zero numbers factors)"
proof -
  have "map (\<lambda>f. f mod 2 ^ (maxbitlen_of factors + 1)) factors = factors"
  proof (rule map_idI)
    fix f assume f: "f \<in> set factors"
    then have "0 \<le> f" using assms(6) by simp
    with f show "f mod 2 ^ (maxbitlen_of factors + 1) = f" by (rule nonneg_factor_small)
  qed
  then show ?thesis using lincomb_value [OF assms(1-5)] by simp
qed

section \<open>Indices out of range\<close>

text \<open>
  Nothing in \<^verbatim>\<open>multisubset\<close> checks an index. An index out of range raises
  \<^verbatim>\<open>IndexError\<close> when \<^verbatim>\<open>numbers\<close> is read at it, in a merge or in the last round; the
  numbers grow by one for each merged pair and each merge removes an index from the
  subsets, so an index at or beyond \<open>len(numbers)\<close> plus the size of the subsets stays out
  of range to the end.
\<close>

lemma add_indices_raises:
  "\<exists>i \<in> set idxs. \<not> i < length numbers \<Longrightarrow>
   add_indices adder numbers key idxs out = Inl IndexError"
  by (induction idxs arbitrary: out) auto

lemma add_indices_error:
  "add_indices adder numbers key idxs out = Inl e \<Longrightarrow> e = IndexError"
  by (induction idxs arbitrary: out) (auto split: if_splits)

lemma finish_error:
  "finish enum adder numbers subs out = Inl e \<Longrightarrow> e = IndexError"
proof (induction subs arbitrary: out)
  case Nil
  then show ?case by simp
next
  case (Cons a subs)
  obtain k S where a: "a = (k, S)" by (cases a)
  show ?case
  proof (cases "add_indices adder numbers k (enum S) out")
    case (Inl e')
    then have "e' = IndexError" by (rule add_indices_error)
    then show ?thesis using Cons.prems Inl by (simp add: a)
  next
    case (Inr out')
    then have "finish enum adder numbers subs out' = Inl e" using Cons.prems by (simp add: a)
    then show ?thesis by (rule Cons.IH)
  qed
qed

lemma finish_raises:
  "(k, S) \<in> set subs \<Longrightarrow> i \<in> set (enum S) \<Longrightarrow> \<not> i < length numbers \<Longrightarrow>
   finish enum adder numbers subs out = Inl IndexError"
proof (induction subs arbitrary: out)
  case Nil
  then show ?case by simp
next
  case (Cons a subs)
  obtain k0 S0 where a: "a = (k0, S0)" by (cases a)
  show ?case
  proof (cases "add_indices adder numbers k0 (enum S0) out")
    case (Inl e')
    then have "e' = IndexError" by (rule add_indices_error)
    then show ?thesis using Inl by (simp add: a)
  next
    case (Inr out')
    have "(k, S) \<noteq> (k0, S0)"
    proof
      assume "(k, S) = (k0, S0)"
      then have "add_indices adder numbers k0 (enum S0) out = Inl IndexError"
        using Cons.prems(2,3) by (intro add_indices_raises) auto
      then show False using Inr by simp
    qed
    then have "(k, S) \<in> set subs" using Cons.prems(1) by (auto simp: a)
    then have "finish enum adder numbers subs out' = Inl IndexError"
      using Cons.prems(2,3) by (rule Cons.IH)
    then show ?thesis using Inr by (simp add: a)
  qed
qed

lemma rewrite_survivor:
  "(k, S) \<in> set subs \<Longrightarrow> a \<in> S \<Longrightarrow> a \<noteq> x \<Longrightarrow> a \<noteq> y \<Longrightarrow>
   \<exists>S'. (k, S') \<in> set (fst (rewrite x y n v subs out)) \<and> S - {x} - {y} \<subseteq> S'"
proof (induction subs arbitrary: out)
  case Nil
  then show ?case by simp
next
  case (Cons p subs)
  obtain k0 S0 where p: "p = (k0, S0)" by (cases p)
  have tail: "\<exists>S'. (k, S') \<in> set (fst (rewrite x y n v subs out')) \<and> S - {x} - {y} \<subseteq> S'"
    if "(k, S) \<in> set subs" for out'
    using that Cons.prems(2,3,4) by (rule Cons.IH)
  show ?case
  proof (cases "(k, S) = (k0, S0)")
    case True
    then have eq: "k0 = k" "S0 = S" by simp_all
    show ?thesis
    proof (cases rule: rewrite_cases [of x S y])
      case delete
      then have False using Cons.prems(2,3,4) by auto
      then show ?thesis ..
    next
      case merge
      show ?thesis unfolding p eq rewrite_Cons_merge [OF merge]
        by (intro exI [of _ "insert n (S - {x} - {y})"]) auto
    next
      case keep
      show ?thesis unfolding p eq rewrite_Cons_keep [OF keep]
        by (intro exI [of _ S]) auto
    qed
  next
    case False
    then have m: "(k, S) \<in> set subs" using Cons.prems(1) by (auto simp: p)
    show ?thesis
    proof (cases rule: rewrite_cases [of x S0 y])
      case delete
      show ?thesis unfolding p rewrite_Cons_delete [OF delete] by (rule tail [OF m])
    next
      case merge
      obtain S' where "(k, S') \<in> set (fst (rewrite x y n v subs out))" "S - {x} - {y} \<subseteq> S'"
        using tail [OF m, of out] by blast
      then show ?thesis unfolding p rewrite_Cons_merge [OF merge]
        by (intro exI [of _ S']) simp
    next
      case keep
      obtain S' where "(k, S') \<in> set (fst (rewrite x y n v subs out))" "S - {x} - {y} \<subseteq> S'"
        using tail [OF m, of out] by blast
      then show ?thesis unfolding p rewrite_Cons_keep [OF keep]
        by (intro exI [of _ S']) simp
    qed
  qed
qed

lemma rewrite_finite:
  assumes "\<forall>(k, S) \<in> set subs. finite S"
  shows "\<forall>(k, S) \<in> set (fst (rewrite x y n v subs out)). finite S"
proof (clarify)
  fix k S' assume mem: "(k, S') \<in> set (fst (rewrite x y n v subs out))"
  obtain S where S: "(k, S) \<in> set subs"
    and c: "(x \<in> S \<and> y \<in> S \<and> S' = insert n (S - {x} - {y}) \<and> S - {x} - {y} \<noteq> {}) \<or>
            (\<not> (x \<in> S \<and> y \<in> S) \<and> S' = S)"
    using rewrite_entries [OF mem] by (elim exE conjE)
  have "finite S" using assms S by auto
  from c show "finite S'"
  proof
    assume "x \<in> S \<and> y \<in> S \<and> S' = insert n (S - {x} - {y}) \<and> S - {x} - {y} \<noteq> {}"
    then show ?thesis using \<open>finite S\<close> by simp
  next
    assume "\<not> (x \<in> S \<and> y \<in> S) \<and> S' = S"
    then show ?thesis using \<open>finite S\<close> by simp
  qed
qed

lemma bad_invD:
  assumes "bad_inv i (numbers, subsets, output)"
  shows "\<forall>(k, S) \<in> set subsets. finite S"
    and "\<exists>k S. (k, S) \<in> set subsets \<and> i \<in> S"
    and "length numbers + total_size subsets \<le> i"
  using assms unfolding bad_inv_def by auto

lemma bad_invI:
  assumes "\<forall>(k, S) \<in> set subsets. finite S"
    and "(k, S) \<in> set subsets" and "i \<in> S"
    and "length numbers + total_size subsets \<le> i"
  shows "bad_inv i (numbers, subsets, output)"
  using assms unfolding bad_inv_def by auto

lemma merge_step_bad:
  assumes binv: "bad_inv i (numbers, subsets, output)"
    and xy: "x \<noteq> y" and m0: "(k0, S0) \<in> set subsets" and x0: "x \<in> S0" and y0: "y \<in> S0"
    and x: "x < length numbers" and y: "y < length numbers"
  shows "bad_inv i (numbers @ [v], fst (rewrite x y n v subsets output),
                    snd (rewrite x y n v subsets output)) \<and>
         total_size (fst (rewrite x y n v subsets output)) < total_size subsets"
proof -
  note fin = bad_invD(1) [OF binv]
  obtain k S where kS: "(k, S) \<in> set subsets" and iS: "i \<in> S"
    using bad_invD(2) [OF binv] by (elim exE conjE)
  have bound: "length numbers + total_size subsets \<le> i" by (rule bad_invD(3) [OF binv])
  have ix: "i \<noteq> x" and iy: "i \<noteq> y" using bound x y by auto
  obtain S' where S': "(k, S') \<in> set (fst (rewrite x y n v subsets output))"
    and sub: "S - {x} - {y} \<subseteq> S'"
    using rewrite_survivor [OF kS iS ix iy, of n v "output"] by (elim exE conjE)
  have iS': "i \<in> S'" using sub iS ix iy by auto
  have less: "total_size (fst (rewrite x y n v subsets output)) < total_size subsets"
    using fin xy m0 x0 y0 by (rule rewrite_total_size_less)
  have fin': "\<forall>(k, S) \<in> set (fst (rewrite x y n v subsets output)). finite S"
    using fin by (rule rewrite_finite)
  have "length (numbers @ [v]) + total_size (fst (rewrite x y n v subsets output)) \<le> i"
    using less bound by simp
  with fin' S' iS' have "bad_inv i (numbers @ [v], fst (rewrite x y n v subsets output),
                    snd (rewrite x y n v subsets output))"
    by (rule bad_invI)
  with less show ?thesis by simp
qed

lemma pairs_live_skip:
  "pairs_live (p # pairs) used subsets \<Longrightarrow> pairs_live pairs used subsets"
  unfolding pairs_live_def by simp

lemma pairs_live_head:
  assumes "pairs_live ((x, y) # pairs) used subsets" and "x \<notin> used" and "y \<notin> used"
  obtains k S where "x \<noteq> y" and "(k, S) \<in> set subsets" and "x \<in> S" and "y \<in> S"
proof -
  have "x \<noteq> y \<and> (\<exists>k S. (k, S) \<in> set subsets \<and> x \<in> S \<and> y \<in> S)"
    using assms unfolding pairs_live_def by simp
  then show thesis using that by (elim exE conjE)
qed

lemma pairs_live_merge:
  assumes live: "pairs_live (p # pairs) used subsets"
  shows "pairs_live pairs (insert x (insert y used)) (fst (rewrite x y n v subsets output))"
  unfolding pairs_live_def
proof (intro allI impI)
  fix a b
  assume ab: "(a, b) \<in> set pairs" and a: "a \<notin> insert x (insert y used)"
    and b: "b \<notin> insert x (insert y used)"
  have "a \<noteq> b \<and> (\<exists>k S. (k, S) \<in> set subsets \<and> a \<in> S \<and> b \<in> S)"
    using live ab a b unfolding pairs_live_def by simp
  then obtain k S where ne: "a \<noteq> b" and kS: "(k, S) \<in> set subsets" and aS: "a \<in> S" and bS: "b \<in> S"
    by (elim exE conjE)
  have ax: "a \<noteq> x" and ay: "a \<noteq> y" using a by auto
  obtain S' where S': "(k, S') \<in> set (fst (rewrite x y n v subsets output))"
    and sub: "S - {x} - {y} \<subseteq> S'"
    using rewrite_survivor [OF kS aS ax ay, of n v "output"] by (elim exE conjE)
  have "a \<in> S'" "b \<in> S'" using sub aS bS a b by auto
  with ne S' show "a \<noteq> b \<and> (\<exists>k S. (k, S) \<in> set (fst (rewrite x y n v subsets output)) \<and> a \<in> S \<and> b \<in> S)"
    by (intro conjI exI [of _ k] exI [of _ S']) simp_all
qed


lemma merge_pairs_bad:
  "bad_inv i (numbers, subsets, output) \<Longrightarrow> pairs_live pairs used subsets \<Longrightarrow>
   merge_pairs adder pairs used (numbers, subsets, output) = Inl IndexError \<or>
   (\<exists>numbers' subsets' output'.
      merge_pairs adder pairs used (numbers, subsets, output) = Inr (numbers', subsets', output') \<and>
      bad_inv i (numbers', subsets', output') \<and>
      total_size subsets' \<le> total_size subsets \<and> length numbers \<le> length numbers')"
proof (induction pairs arbitrary: used numbers subsets "output")
  case Nil
  then show ?case by simp
next
  case (Cons p pairs)
  obtain x y where p: "p = (x, y)" by (cases p)
  show ?case
  proof (cases "x \<in> used \<or> y \<in> used")
    case True
    have "pairs_live pairs used subsets" using Cons.prems(2) by (rule pairs_live_skip)
    with Cons.prems(1) show ?thesis
      unfolding p merge_pairs_Cons_skip [OF True] by (rule Cons.IH)
  next
    case False
    show ?thesis
    proof (cases "x < length numbers \<and> y < length numbers")
      case inrange: True
      then have x: "x < length numbers" and y: "y < length numbers" by simp_all
      let ?v = "adder (numbers ! x) (numbers ! y)"
      let ?numbers1 = "numbers @ [?v]"
      let ?subsets1 = "fst (rewrite x y (length numbers) ?v subsets output)"
      let ?output1 = "snd (rewrite x y (length numbers) ?v subsets output)"
      obtain k S where xy: "x \<noteq> y" and kS: "(k, S) \<in> set subsets" and xS: "x \<in> S" and yS: "y \<in> S"
        using Cons.prems(2) False unfolding p by (elim pairs_live_head) simp_all
      have step: "bad_inv i (?numbers1, ?subsets1, ?output1) \<and> total_size ?subsets1 < total_size subsets"
        using Cons.prems(1) xy kS xS yS x y by (rule merge_step_bad)
      have live1: "pairs_live pairs (insert x (insert y used)) ?subsets1"
        using Cons.prems(2) by (rule pairs_live_merge)
      have "merge_pairs adder pairs (insert x (insert y used)) (?numbers1, ?subsets1, ?output1) =
              Inl IndexError \<or>
            (\<exists>numbers' subsets' output'.
               merge_pairs adder pairs (insert x (insert y used)) (?numbers1, ?subsets1, ?output1) =
                 Inr (numbers', subsets', output') \<and>
               bad_inv i (numbers', subsets', output') \<and>
               total_size subsets' \<le> total_size ?subsets1 \<and> length ?numbers1 \<le> length numbers')"
        using step live1 by (intro Cons.IH) simp_all
      then show ?thesis
      proof
        assume "merge_pairs adder pairs (insert x (insert y used)) (?numbers1, ?subsets1, ?output1) =
              Inl IndexError"
        then show ?thesis unfolding p merge_pairs_Cons_merge [OF False x y] by simp
      next
        assume "\<exists>numbers' subsets' output'.
               merge_pairs adder pairs (insert x (insert y used)) (?numbers1, ?subsets1, ?output1) =
                 Inr (numbers', subsets', output') \<and>
               bad_inv i (numbers', subsets', output') \<and>
               total_size subsets' \<le> total_size ?subsets1 \<and> length ?numbers1 \<le> length numbers'"
        then obtain numbers' subsets' output' where
          r: "merge_pairs adder pairs (insert x (insert y used)) (?numbers1, ?subsets1, ?output1) =
                 Inr (numbers', subsets', output')"
          and b: "bad_inv i (numbers', subsets', output')"
          and sz: "total_size subsets' \<le> total_size ?subsets1"
          and ln: "length ?numbers1 \<le> length numbers'"
          by (elim exE conjE)
        have "total_size subsets' \<le> total_size subsets" using sz step by simp
        moreover have "length numbers \<le> length numbers'" using ln by simp
        ultimately show ?thesis
          unfolding p merge_pairs_Cons_merge [OF False x y] using r b by simp
      qed
    next
      case False2: False
      show ?thesis unfolding p merge_pairs_Cons_raise [OF False False2] by simp
    qed
  qed
qed

lemma rounds_bad:
  assumes so: "set_order enum"
  shows "bad_inv i (numbers, subsets, output) \<Longrightarrow> numbers \<noteq> [] \<Longrightarrow>
     roundcount + total_size subsets < 9999999 \<Longrightarrow>
     rounds enum adder roundcount (numbers, subsets, output) = Inl IndexError"
proof (induction "total_size subsets" arbitrary: roundcount numbers subsets "output" rule: less_induct)
  case less
  note binv = less.prems(1)
  note fin = bad_invD(1) [OF binv]
  let ?pairs = "pairs_by_count_of (length numbers) (count_pairs enum subsets)"
  have rc: "\<not> roundcount \<ge> 9999999" and ne: "length numbers \<noteq> 0"
    using less.prems by auto
  show ?case
  proof (cases ?pairs)
    case Nil
    obtain k S where kS: "(k, S) \<in> set subsets" and iS: "i \<in> S"
      using bad_invD(2) [OF binv] by (elim exE conjE)
    have "finite S" using fin kS by auto
    then have "i \<in> set (enum S)" using so iS unfolding set_order_def by simp
    moreover have "\<not> i < length numbers" using bad_invD(3) [OF binv] by simp
    ultimately have "finish enum adder numbers subsets output = Inl IndexError"
      using kS by (intro finish_raises)
    then show ?thesis
      using rc ne Nil by (subst rounds.simps) (simp add: Let_def)
  next
    case (Cons p ps)
    have live: "pairs_live ?pairs {} subsets"
      unfolding pairs_live_def
    proof (intro allI impI)
      fix x y assume "(x, y) \<in> set ?pairs"
      then have "x < y \<and> (\<exists>(k, S) \<in> set subsets. x \<in> S \<and> y \<in> S)"
        using so fin by (intro pairs_by_count_member)
      then show "x \<noteq> y \<and> (\<exists>k S. (k, S) \<in> set subsets \<and> x \<in> S \<and> y \<in> S)" by auto
    qed
    obtain x y where p: "p = (x, y)" by (cases p)
    have unused: "\<not> (x \<in> {} \<or> y \<in> {})" by simp
    show ?thesis
    proof (cases "x < length numbers \<and> y < length numbers")
      case False
      have "merge_pairs adder ?pairs {} (numbers, subsets, output) = Inl IndexError"
        unfolding Cons p using unused False by (rule merge_pairs_Cons_raise)
      then show ?thesis
        using rc ne Cons by (subst rounds.simps) (simp add: Let_def)
    next
      case True
      then have x: "x < length numbers" and y: "y < length numbers" by simp_all
      let ?v = "adder (numbers ! x) (numbers ! y)"
      let ?numbers1 = "numbers @ [?v]"
      let ?subsets1 = "fst (rewrite x y (length numbers) ?v subsets output)"
      let ?output1 = "snd (rewrite x y (length numbers) ?v subsets output)"
      obtain k S where xy: "x \<noteq> y" and kS: "(k, S) \<in> set subsets" and xS: "x \<in> S" and yS: "y \<in> S"
        using live unfolding Cons p by (elim pairs_live_head) simp_all
      have step: "bad_inv i (?numbers1, ?subsets1, ?output1) \<and> total_size ?subsets1 < total_size subsets"
        using binv xy kS xS yS x y by (rule merge_step_bad)
      have live1: "pairs_live ps (insert x (insert y {})) ?subsets1"
        using live unfolding Cons by (rule pairs_live_merge)
      have m1: "merge_pairs adder ?pairs {} (numbers, subsets, output) =
                merge_pairs adder ps (insert x (insert y {})) (?numbers1, ?subsets1, ?output1)"
        unfolding Cons p using unused x y by (rule merge_pairs_Cons_merge)
      have "merge_pairs adder ps (insert x (insert y {})) (?numbers1, ?subsets1, ?output1) =
              Inl IndexError \<or>
            (\<exists>numbers' subsets' output'.
               merge_pairs adder ps (insert x (insert y {})) (?numbers1, ?subsets1, ?output1) =
                 Inr (numbers', subsets', output') \<and>
               bad_inv i (numbers', subsets', output') \<and>
               total_size subsets' \<le> total_size ?subsets1 \<and> length ?numbers1 \<le> length numbers')"
        using step live1 by (intro merge_pairs_bad) simp_all
      then show ?thesis
      proof
        assume "merge_pairs adder ps (insert x (insert y {})) (?numbers1, ?subsets1, ?output1) =
              Inl IndexError"
        then show ?thesis
          using rc ne Cons m1 by (subst rounds.simps) (simp add: Let_def)
      next
        assume "\<exists>numbers' subsets' output'.
               merge_pairs adder ps (insert x (insert y {})) (?numbers1, ?subsets1, ?output1) =
                 Inr (numbers', subsets', output') \<and>
               bad_inv i (numbers', subsets', output') \<and>
               total_size subsets' \<le> total_size ?subsets1 \<and> length ?numbers1 \<le> length numbers'"
        then obtain numbers' subsets' output' where
          r: "merge_pairs adder ps (insert x (insert y {})) (?numbers1, ?subsets1, ?output1) =
                 Inr (numbers', subsets', output')"
          and b: "bad_inv i (numbers', subsets', output')"
          and sz: "total_size subsets' \<le> total_size ?subsets1"
          and ln: "length ?numbers1 \<le> length numbers'"
          by (elim exE conjE)
        have "rounds enum adder (roundcount + 1) (numbers', subsets', output') = Inl IndexError"
        proof (rule less.hyps)
          show "total_size subsets' < total_size subsets" using sz step by simp
          show "bad_inv i (numbers', subsets', output')" by (rule b)
          show "numbers' \<noteq> []" using ln by auto
          show "roundcount + 1 + total_size subsets' < 9999999"
            using sz step less.prems(3) by simp
        qed
        moreover have "rounds enum adder roundcount (numbers, subsets, output) =
                       rounds enum adder (roundcount + 1) (numbers', subsets', output')"
          using rc ne Cons m1 r by (subst rounds.simps) (simp add: Let_def)
        ultimately show ?thesis by simp
      qed
    qed
  qed
qed

lemma multisubset_raises:
  assumes so: "set_order enum" and ne: "numbers \<noteq> []"
    and fin: "\<forall>S \<in> set subsets. finite S"
    and cap: "sum_list (map card subsets) < 9999999"
    and S: "S \<in> set subsets" and i: "i \<in> S"
    and far: "length numbers + sum_list (map card subsets) \<le> i"
  shows "multisubset enum numbers subsets adder zero = Inl IndexError"
proof -
  let ?subs = "zip [0..<length subsets] subsets"
  have snd_in: "S' \<in> set subsets" if "(k, S') \<in> set ?subs" for k S'
    using that by (rule set_zip_rightD)
  have fin': "\<forall>(k, S) \<in> set ?subs. finite S"
    using fin snd_in by auto
  obtain k where k: "k < length subsets" "subsets ! k = S"
    using S by (auto simp: in_set_conv_nth)
  then have mem: "(k, S) \<in> set ?subs"
    by (auto simp: set_zip intro!: exI [of _ k])
  have "bad_inv i (numbers, ?subs, replicate (length subsets) zero)"
    using fin' mem i far by (intro bad_invI) (simp_all add: initial_total_size)
  then have "rounds enum adder 0 (numbers, ?subs, replicate (length subsets) zero) = Inl IndexError"
    using ne cap by (intro rounds_bad [OF so]) (simp_all add: initial_total_size)
  then show ?thesis by (simp add: multisubset_def)
qed

section \<open>Values of the cutoff and small facts for concrete inputs\<close>

lemma int_log_1: "int_log 1 = 0" by (simp add: int_log_def)
lemma int_log_Suc_0: "int_log (Suc 0) = 0" by (simp add: int_log_def)

lemma int_log_2: "int_log 2 = 0"
proof -
  have "0 \<le> ln (2::real)" by simp
  moreover have "ln (2::real) < 1" by (rule ln_2_less_1)
  ultimately have "\<lfloor>ln (2::real)\<rfloor> = 0" by linarith
  then show ?thesis by (simp add: int_log_def)
qed

lemma exp_2_gt_4: "(4::real) < exp 2"
  using exp_lower_Taylor_quadratic [of "2::real"] by simp

lemma int_log_3_4:
  assumes "3 \<le> n" "n \<le> 4"
  shows "int_log n = 1"
proof -
  have "exp 1 \<le> real n" using assms exp_le by (simp add: order_trans)
  then have "1 \<le> ln (real n)" using assms by (simp add: ln_ge_iff)
  moreover have "real n < exp 2" using assms exp_2_gt_4 by simp
  then have "ln (real n) < ln (exp 2)" using assms by (subst ln_less_cancel_iff) simp_all
  then have "ln (real n) < 2" by simp
  ultimately have "\<lfloor>ln (real n)\<rfloor> = 1" by linarith
  then show ?thesis by (simp add: int_log_def)
qed

lemma int_log_Suc_Suc_0: "int_log (Suc (Suc 0)) = 0"
  using int_log_2 by (simp add: numeral_2_eq_2)

lemma pad_numbers_1: "pad_numbers (Suc 0) z xs = xs"
  by (subst pad_numbers.simps) simp

lemma valid_inter:
  assumes "\<forall>S \<in> set subsets. \<forall>i \<in> S. i < n"
  shows "map (\<lambda>sub. f (sub \<inter> {..<n})) subsets = map f subsets"
proof (rule map_cong [OF refl])
  fix S assume "S \<in> set subsets"
  then have "S \<inter> {..<n} = S" using assms by auto
  then show "f (S \<inter> {..<n}) = f S" by simp
qed

lemma multisubset2_valid_sums:
  assumes "group_adder adder zero" and "\<forall>S \<in> set subsets. \<forall>i \<in> S. i < length numbers"
  shows "multisubset2 numbers subsets adder zero = Inr (map (subset_sum adder zero numbers) subsets)"
  unfolding multisubset2_sums [OF assms(1)] using valid_inter [OF assms(2)] by simp

lemma repeat_add_int: "repeat_add (+) 0 n (x :: int) = int n * x"
  by (induction n) (simp_all add: repeat_add_0 repeat_add_Suc algebra_simps)

lemma maxbitlen_of_eval:
  "maxbitlen_of [6, 1, 2] = 3" "maxbitlen_of [1] = 1" "maxbitlen_of [-1] = 2" "maxbitlen_of [1, 1] = 1"
  by (simp_all add: maxbitlen_of_def len_bin_def bin_digits.simps)

lemma cutoff_3: "int_log (Suc (Suc (Suc 0))) = 1"
  using int_log_3_4 [of 3] by (simp add: numeral_3_eq_3)

lemma cutoff_4: "int_log (Suc (Suc (Suc (Suc 0)))) = 1"
  using int_log_3_4 [of 4] by (simp add: eval_nat_numeral)

section \<open>The cap on the rounds\<close>

text \<open>
  The loop of \<^verbatim>\<open>multisubset\<close> is \<^verbatim>\<open>for roundcount in range(9999999)\<close>, and the exit
  branch is tested at the start of a round only. A round may merge a single pair. Take
  subsets \<open>{0, a}\<close> for distinct indices \<open>a > 0\<close>, followed by empty subsets: every pair of
  a round holds the index 0, every count is 1, and the stable sort leaves the pairs in the
  order of their subsets. The first pair is merged, which empties and deletes the first
  subset; every later pair is skipped, since index 0 is used. With 9999999 or more such
  subsets the range is exhausted before a round finds no pair, and the function falls off
  its end: it returns \<^verbatim>\<open>None\<close>. This holds for every iteration order of the sets.
\<close>

lemma int_log_ge_1:
  assumes "3 \<le> n"
  shows "1 \<le> int_log n"
proof -
  have "exp 1 \<le> real n" using assms exp_le by (simp add: order_trans)
  then have "1 \<le> ln (real n)" using assms by (simp add: ln_ge_iff)
  then have "(1::int) \<le> \<lfloor>ln (real n)\<rfloor>" by (simp add: le_floor_iff)
  then show ?thesis unfolding int_log_def by linarith
qed

lemma enum_hub_pair:
  assumes "set_order enum" and "0 < a"
  shows "enum {0, a} = [0, a] \<or> enum {0, a} = [a, 0]"
proof -
  have s: "set (enum {0, a}) = {0, a}" and d: "distinct (enum {0, a})"
    using assms(1) by (simp_all add: set_order_def)
  have "length (enum {0, a}) = card (set (enum {0, a}))"
    using d by (simp add: distinct_card)
  also have "\<dots> = 2" using assms(2) by (simp add: s)
  finally obtain x y where xy: "enum {0, a} = [x, y]"
    by (auto simp: length_Suc_conv numeral_2_eq_2)
  have "{x, y} = {0, a}" using s by (simp add: xy)
  then have "(x = 0 \<and> y = a) \<or> (x = a \<and> y = 0)" by (simp add: doubleton_eq_iff)
  then show ?thesis using xy by auto
qed

lemma bump_fresh: "p \<notin> fst ` set pc \<Longrightarrow> bump pc p = pc @ [(p, 1)]"
  by (induction pc p rule: bump.induct) auto

lemma count_subset_hub_pair:
  assumes "set_order enum" and "0 < a"
  shows "count_subset (enum {0, a}) pc = bump pc (0, a)"
  using enum_hub_pair [OF assms] assms(2) by (auto simp: count_subset_def)

lemma count_subset_empty:
  assumes "set_order enum"
  shows "count_subset (enum {}) pc = pc"
proof -
  have "set (enum {}) = {}" using assms by (simp add: set_order_def)
  then have "enum {} = []" by simp
  then show ?thesis by (simp add: count_subset_def)
qed

lemma count_empties:
  assumes "set_order enum"
  shows "\<forall>e \<in> set rest. snd e = {} \<Longrightarrow>
         fold (\<lambda>(index, sub). count_subset (enum sub)) rest pc = pc"
proof (induction rest arbitrary: pc)
  case Nil
  show ?case by simp
next
  case (Cons e rest)
  obtain k T where e: "e = (k, T)" by (cases e)
  have T: "T = {}" using Cons.prems by (simp add: e)
  have "fold (\<lambda>(index, sub). count_subset (enum sub)) rest pc = pc"
    using Cons.prems by (intro Cons.IH) simp
  then show ?case by (simp add: e T count_subset_empty [OF assms])
qed

lemma count_hub_pairs:
  assumes "set_order enum"
  shows "distinct (map snd kas) \<Longrightarrow> \<forall>p \<in> set kas. 0 < snd p \<Longrightarrow>
         \<forall>p \<in> set kas. (0, snd p) \<notin> fst ` set pc \<Longrightarrow>
         fold (\<lambda>(index, sub). count_subset (enum sub)) (map (\<lambda>p. (fst p, {0, snd p})) kas) pc =
           pc @ map (\<lambda>p. ((0, snd p), 1)) kas"
proof (induction kas arbitrary: pc)
  case Nil
  show ?case by simp
next
  case (Cons q kas)
  let ?pc1 = "pc @ [((0, snd q), 1)]"
  have pos: "0 < snd q" and fresh: "(0, snd q) \<notin> fst ` set pc"
    and qnot: "snd q \<notin> snd ` set kas" and d: "distinct (map snd kas)"
    and pos': "\<forall>p \<in> set kas. 0 < snd p"
    and fresh': "\<forall>p \<in> set kas. (0, snd p) \<notin> fst ` set pc"
    using Cons.prems by simp_all
  have head: "count_subset (enum {0, snd q}) pc = ?pc1"
    unfolding count_subset_hub_pair [OF assms pos] using fresh by (rule bump_fresh)
  have new: "\<forall>p \<in> set kas. (0, snd p) \<notin> fst ` set ?pc1"
  proof
    fix p assume p: "p \<in> set kas"
    then have "snd p \<noteq> snd q" using qnot by (metis imageI)
    moreover have "(0, snd p) \<notin> fst ` set pc" using fresh' p by simp
    ultimately show "(0, snd p) \<notin> fst ` set ?pc1" by simp
  qed
  have "fold (\<lambda>(index, sub). count_subset (enum sub)) (map (\<lambda>p. (fst p, {0, snd p})) (q # kas)) pc =
        fold (\<lambda>(index, sub). count_subset (enum sub)) (map (\<lambda>p. (fst p, {0, snd p})) kas) ?pc1"
    by (simp add: head)
  also have "\<dots> = ?pc1 @ map (\<lambda>p. ((0, snd p), 1)) kas"
    using d pos' new by (rule Cons.IH)
  finally show ?case by simp
qed

lemma pairs_by_count_hub:
  assumes "set_order enum" and "distinct (map snd kas)" and "\<forall>p \<in> set kas. 0 < snd p"
    and "\<forall>e \<in> set rest. snd e = {}"
  shows "pairs_by_count_of n (count_pairs enum (map (\<lambda>p. (fst p, {0, snd p})) kas @ rest)) =
         take (n * int_log n) (map (\<lambda>p. (0, snd p)) kas)"
proof -
  let ?pc = "map (\<lambda>p. ((0 :: nat, snd p), 1 :: nat)) kas"
  have "count_pairs enum (map (\<lambda>p. (fst p, {0, snd p})) kas @ rest) =
        fold (\<lambda>(index, sub). count_subset (enum sub)) rest
          (fold (\<lambda>(index, sub). count_subset (enum sub)) (map (\<lambda>p. (fst p, {0, snd p})) kas) [])"
    by (simp add: count_pairs_def)
  also have "\<dots> = fold (\<lambda>(index, sub). count_subset (enum sub)) (map (\<lambda>p. (fst p, {0, snd p})) kas) []"
    using assms(1,4) by (rule count_empties)
  also have "\<dots> = [] @ ?pc"
    using assms(1,2,3) by (rule count_hub_pairs) simp
  finally have pc: "count_pairs enum (map (\<lambda>p. (fst p, {0, snd p})) kas @ rest) = ?pc" by simp
  have "map (\<lambda>(el, c). - int c) ?pc = map (\<lambda>p. - 1) kas" by simp
  moreover have "sorted (map (\<lambda>p. - 1 :: int) zs)" for zs :: "(nat \<times> nat) list"
    by (induction zs) simp_all
  ultimately have "sorted (map (\<lambda>(el, c). - int c) ?pc)" by (simp only:)
  then have "sort_key (\<lambda>(el, c). - int c) ?pc = ?pc" by (rule sort_key_id_if_sorted)
  then show ?thesis unfolding pairs_by_count_of_def pc by (simp add: o_def)
qed

lemma rewrite_untouched:
  "\<forall>e \<in> set subs. \<not> (x \<in> snd e \<and> y \<in> snd e) \<Longrightarrow> rewrite x y n v subs out = (subs, out)"
proof (induction subs)
  case Nil
  show ?case by simp
next
  case (Cons e subs)
  obtain k T where e: "e = (k, T)" by (cases e)
  have keep: "\<not> (x \<in> T \<and> y \<in> T)" using Cons.prems by (simp add: e)
  have "rewrite x y n v subs out = (subs, out)" using Cons.prems by (intro Cons.IH) simp
  then show ?case unfolding e rewrite_Cons_keep [OF keep] by simp
qed

lemma merge_pairs_all_used:
  "\<forall>p \<in> set ps. fst p \<in> used \<Longrightarrow> merge_pairs adder ps used s = Inr s"
proof (induction ps)
  case Nil
  show ?case by simp
next
  case (Cons p ps)
  obtain x y where p: "p = (x, y)" by (cases p)
  obtain numbers subsets out where s: "s = (numbers, subsets, out)" by (cases s)
  have "x \<in> used \<or> y \<in> used" using Cons.prems by (simp add: p)
  then have "merge_pairs adder (p # ps) used s = merge_pairs adder ps used s"
    unfolding p s by (rule merge_pairs_Cons_skip)
  also have "\<dots> = Inr s" using Cons.prems by (intro Cons.IH) simp
  finally show ?case .
qed

lemma merge_pairs_hub:
  assumes a: "0 < a" "a < length numbers"
    and others: "\<forall>e \<in> set subs. a \<notin> snd e"
    and ps: "\<forall>p \<in> set ps. fst p = 0"
  shows "merge_pairs adder ((0, a) # ps) {} (numbers, (k, {0, a}) # subs, out) =
         Inr (numbers @ [adder (numbers ! 0) (numbers ! a)], subs,
              out[k := adder (numbers ! 0) (numbers ! a)])"
proof -
  let ?v = "adder (numbers ! 0) (numbers ! a)"
  have zero: "0 < length numbers" using a(2) by (cases numbers) simp_all
  have emp: "{0, a} - {0} - {a} = {}" by auto
  have "rewrite 0 a (length numbers) ?v ((k, {0, a}) # subs) out =
        rewrite 0 a (length numbers) ?v subs (out[k := ?v])"
    by (rule rewrite_Cons_delete [OF _ _ emp]) simp_all
  also have "\<dots> = (subs, out[k := ?v])"
    using others by (intro rewrite_untouched) simp
  finally have rw: "rewrite 0 a (length numbers) ?v ((k, {0, a}) # subs) out = (subs, out[k := ?v])" .
  have "merge_pairs adder ((0, a) # ps) {} (numbers, (k, {0, a}) # subs, out) =
        merge_pairs adder ps (insert 0 (insert a {}))
          (numbers @ [?v],
           fst (rewrite 0 a (length numbers) ?v ((k, {0, a}) # subs) out),
           snd (rewrite 0 a (length numbers) ?v ((k, {0, a}) # subs) out))"
    by (rule merge_pairs_Cons_merge) (use zero a(2) in simp_all)
  also have "\<dots> = merge_pairs adder ps (insert 0 (insert a {}))
          (numbers @ [?v], subs, out[k := ?v])"
    by (simp only: rw fst_conv snd_conv)
  also have "\<dots> = Inr (numbers @ [?v], subs, out[k := ?v])"
    using ps by (intro merge_pairs_all_used) simp
  finally show ?thesis .
qed

lemma rounds_hub:
  assumes enum: "set_order enum" and rest: "\<forall>e \<in> set rest. snd e = {}"
  shows "distinct (map snd kas) \<Longrightarrow> \<forall>p \<in> set kas. 0 < snd p \<and> snd p < length numbers \<Longrightarrow>
         3 \<le> length numbers \<Longrightarrow> 9999999 \<le> roundcount + length kas \<Longrightarrow>
         rounds enum adder roundcount (numbers, map (\<lambda>p. (fst p, {0, snd p})) kas @ rest, out) =
           Inr None"
proof (induction kas arbitrary: roundcount numbers out)
  case Nil
  then have "roundcount \<ge> 9999999" by simp
  then show ?case by (subst rounds.simps) simp
next
  case (Cons q kas)
  let ?n = "length numbers"
  let ?subs = "map (\<lambda>p. (fst p, {0, snd p})) kas @ rest"
  let ?v = "adder (numbers ! 0) (numbers ! snd q)"
  show ?case
  proof (cases "roundcount \<ge> 9999999")
    case True
    then show ?thesis by (subst rounds.simps) simp
  next
    case False
    have d: "distinct (map snd kas)" and qnot: "snd q \<notin> snd ` set kas"
      and q: "0 < snd q" "snd q < ?n"
      and valid: "\<forall>p \<in> set kas. 0 < snd p \<and> snd p < ?n"
      using Cons.prems(1,2) by simp_all
    have n3: "3 \<le> ?n" by (rule Cons.prems(3))
    have ne: "numbers \<noteq> []" using n3 by auto
    have log1: "1 \<le> int_log ?n" using n3 by (rule int_log_ge_1)
    have "1 * 1 \<le> ?n * int_log ?n"
      by (rule mult_le_mono) (use n3 log1 in linarith)+
    then have "1 \<le> ?n * int_log ?n" by (simp only: mult_1)
    then obtain c where c: "?n * int_log ?n = Suc c" by (cases "?n * int_log ?n") simp_all
    have pos: "\<forall>p \<in> set (q # kas). 0 < snd p" using Cons.prems(2) by simp
    have pbc: "pairs_by_count_of ?n (count_pairs enum
                 (map (\<lambda>p. (fst p, {0, snd p})) (q # kas) @ rest)) =
               (0, snd q) # take c (map (\<lambda>p. (0, snd p)) kas)"
      unfolding pairs_by_count_hub [OF enum Cons.prems(1) pos rest] c by simp
    have others: "\<forall>e \<in> set ?subs. snd q \<notin> snd e"
    proof
      fix e assume "e \<in> set ?subs"
      then consider p where "p \<in> set kas" "e = (fst p, {0, snd p})" | "e \<in> set rest" by auto
      then show "snd q \<notin> snd e"
      proof cases
        case 1
        then have "snd p \<noteq> snd q" using qnot by (metis imageI)
        then show ?thesis using 1 q(1) by auto
      next
        case 2
        then show ?thesis using rest by simp
      qed
    qed
    have fsts: "\<forall>p \<in> set (take c (map (\<lambda>p. (0 :: nat, snd p)) kas)). fst p = 0"
    proof
      fix p assume "p \<in> set (take c (map (\<lambda>p. (0 :: nat, snd p)) kas))"
      then have "p \<in> set (map (\<lambda>p. (0 :: nat, snd p)) kas)" by (rule in_set_takeD)
      then show "fst p = 0" by auto
    qed
    have m: "merge_pairs adder ((0, snd q) # take c (map (\<lambda>p. (0, snd p)) kas)) {}
               (numbers, (fst q, {0, snd q}) # ?subs, out) =
             Inr (numbers @ [?v], ?subs, out[fst q := ?v])"
      using q others fsts by (rule merge_pairs_hub)
    have valid': "\<forall>p \<in> set kas. 0 < snd p \<and> snd p < length (numbers @ [?v])"
      using valid by auto
    have "rounds enum adder (roundcount + 1) (numbers @ [?v], ?subs, out[fst q := ?v]) = Inr None"
      using d valid' by (rule Cons.IH) (use n3 Cons.prems(4) in simp_all)
    moreover have "rounds enum adder roundcount
          (numbers, map (\<lambda>p. (fst p, {0, snd p})) (q # kas) @ rest, out) =
        rounds enum adder (roundcount + 1) (numbers @ [?v], ?subs, out[fst q := ?v])"
    proof -
      have pbc': "pairs_by_count_of ?n (count_pairs enum ((fst q, {0, snd q}) # ?subs)) =
                  (0, snd q) # take c (map (\<lambda>p. (0, snd p)) kas)"
        using pbc by simp
      show ?thesis
        using False ne
        by (subst rounds.simps) (simp add: Let_def pbc' m del: merge_pairs.simps)
    qed
    ultimately show ?thesis by simp
  qed
qed

lemma multisubset_hub:
  assumes enum: "set_order enum" and d: "distinct as"
    and valid: "\<forall>a \<in> set as. 0 < a \<and> a < length numbers"
    and n3: "3 \<le> length numbers" and many: "9999999 \<le> length as"
    and empties: "\<forall>S \<in> set empties. S = {}"
  shows "multisubset enum numbers (map (\<lambda>a. {0, a}) as @ empties) adder zero = Inr None"
proof -
  let ?m = "length as"
  let ?kas = "zip [0..<?m] as"
  let ?rest = "zip [?m..<?m + length empties] empties"
  let ?subsets = "map (\<lambda>a. {0, a}) as @ empties"
  have up: "[0..<?m + length empties] = [0..<?m] @ [?m..<?m + length empties]"
    by (rule upt_add_eq_append) simp
  have "zip [0..<length ?subsets] ?subsets =
        zip ([0..<?m] @ [?m..<?m + length empties]) (map (\<lambda>a. {0, a}) as @ empties)"
    using up by simp
  also have "\<dots> = zip [0..<?m] (map (\<lambda>a. {0, a}) as) @ ?rest"
    by (rule zip_append) simp
  also have "zip [0..<?m] (map (\<lambda>a. {0, a}) as) = map (\<lambda>p. (fst p, {0, snd p})) ?kas"
    by (simp add: zip_map2 case_prod_beta)
  finally have init: "zip [0..<length ?subsets] ?subsets =
                      map (\<lambda>p. (fst p, {0, snd p})) ?kas @ ?rest" .
  have snds: "map snd ?kas = as" by simp
  have d': "distinct (map snd ?kas)" using d by (simp only: snds)
  have valid': "\<forall>p \<in> set ?kas. 0 < snd p \<and> snd p < length numbers"
  proof
    fix p assume "p \<in> set ?kas"
    then have "snd p \<in> set as" by (metis prod.collapse set_zip_rightD)
    then show "0 < snd p \<and> snd p < length numbers" using valid by simp
  qed
  have rest: "\<forall>e \<in> set ?rest. snd e = {}"
  proof
    fix e assume "e \<in> set ?rest"
    then have "snd e \<in> set empties" by (metis prod.collapse set_zip_rightD)
    then show "snd e = {}" using empties by simp
  qed
  have many': "9999999 \<le> 0 + length ?kas" using many by simp
  have "rounds enum adder 0
          (numbers, map (\<lambda>p. (fst p, {0, snd p})) ?kas @ ?rest,
           replicate (length ?subsets) zero) = Inr None"
    using enum rest d' valid' n3 many' by (rule rounds_hub)
  then show ?thesis unfolding multisubset_def init .
qed

lemma multisubset_hub_range:
  assumes "set_order enum" and "9999999 < n" and "length numbers = n"
  shows "multisubset enum numbers (map (\<lambda>a. {0, a}) [1..<n] @ [{}]) adder zero = Inr None"
proof (rule multisubset_hub [OF assms(1)])
  show "distinct [1..<n]" by simp
  show "\<forall>a \<in> set [1..<n]. 0 < a \<and> a < length numbers" using assms(3) by simp
  show "3 \<le> length numbers" using assms(2,3) by simp
  show "9999999 \<le> length [1..<n]" using assms(2) by simp
  show "\<forall>S \<in> set [{} :: nat set]. S = {}" by simp
qed

text \<open>
  The sibling \<^verbatim>\<open>multisubset2\<close> has no such loop. On elements that are all 1 under
  integer addition it returns 2 for each subset \<open>{0, a}\<close> and 0 for the empty subset.
\<close>

lemma subset_sum_hub_ones:
  assumes "0 < a" and "a < n"
  shows "subset_sum (+) 0 (replicate n (1 :: int)) {0, a} = 2"
proof -
  have "sorted_list_of_set {0, a} = [0, a]" using assms(1) by simp
  then show ?thesis using assms by (simp add: subset_sum_def adder_fold_def)
qed

lemma multisubset2_hub_ones:
  "multisubset2 (replicate (m + 1) (1 :: int)) (map (\<lambda>a. {0, a}) [1..<m + 1] @ [{}]) (+) 0 =
     Inr (replicate m 2 @ [0])"
proof -
  let ?numbers = "replicate (m + 1) (1 :: int)"
  let ?subsets = "map (\<lambda>a. {0, a}) [1..<m + 1] @ [{} :: nat set]"
  have "\<forall>S \<in> set ?subsets. \<forall>i \<in> S. i < length ?numbers"
    by (auto simp del: upt_Suc replicate_Suc)
  with group_adder_int
  have "multisubset2 ?numbers ?subsets (+) 0 = Inr (map (subset_sum (+) 0 ?numbers) ?subsets)"
    by (rule multisubset2_valid_sums)
  moreover have "map (subset_sum (+) 0 ?numbers) (map (\<lambda>a. {0, a}) [1..<m + 1]) =
                 map (\<lambda>a. 2) [1..<m + 1]"
  proof -
    have "subset_sum (+) 0 ?numbers {0, a} = 2" if "a \<in> set [1..<m + 1]" for a
      using that by (intro subset_sum_hub_ones) (simp_all del: upt_Suc)
    then show ?thesis by (simp only: map_map o_def cong: map_cong)
  qed
  moreover have "map (\<lambda>a. 2 :: int) [1..<m + 1] = replicate m 2"
    by (simp add: map_replicate_const del: upt_Suc)
  ultimately show ?thesis
    by (simp only: map_append list.map subset_sum_empty)
qed

text \<open>
  The same subsets are the bit subsets of \<^verbatim>\<open>lincomb\<close> for the factors
  \<open>2^b - 1, 1, 2, 4, \<dots>, 2^(b-1)\<close>: factor 0 has every bit below \<open>b\<close>, and factor \<open>j + 1\<close>
  has bit \<open>j\<close> only; \<^verbatim>\<open>maxbitlen\<close> is \<open>b\<close>, and subset \<open>b\<close> is empty. When
  \<^verbatim>\<open>multisubset\<close> returns \<^verbatim>\<open>None\<close>, \<^verbatim>\<open>lincomb\<close> raises \<^verbatim>\<open>TypeError\<close> at
  \<^verbatim>\<open>subset_sums[i]\<close>.
\<close>

lemma bin_digits_exact:
  "2 ^ k \<le> n \<Longrightarrow> n < 2 ^ (k + 1) \<Longrightarrow> bin_digits n = k + 1"
proof (induction k arbitrary: n)
  case 0
  then have "n = 1" by simp
  then show ?case by (subst bin_digits.simps) simp
next
  case (Suc k)
  have "2 * 2 ^ k \<le> n" using Suc.prems(1) by simp
  moreover have "(1::nat) \<le> 2 ^ k" by simp
  ultimately have big: "\<not> n < 2" by linarith
  have "2 ^ k \<le> n div 2" using Suc.prems(1) by simp
  moreover have "n div 2 < 2 ^ (k + 1)" using Suc.prems(2) by simp
  ultimately have "bin_digits (n div 2) = k + 1" by (rule Suc.IH)
  then show ?case using big by (subst bin_digits.simps) simp
qed

lemma len_bin_power: "len_bin (2 ^ j) - 2 = j + 1"
proof -
  have "bin_digits (2 ^ j) = j + 1" by (rule bin_digits_exact) simp_all
  moreover have "nat \<bar>2 ^ j :: int\<bar> = 2 ^ j" by (simp add: nat_power_eq)
  ultimately show ?thesis by (simp add: len_bin_def nat_power_eq)
qed

lemma len_bin_mask:
  assumes "0 < b"
  shows "len_bin (2 ^ b - 1) - 2 = b"
proof -
  obtain k where k: "b = k + 1" using assms by (cases b) simp_all
  have "(2::nat) ^ k \<le> 2 ^ b - 1" by (simp add: k)
  moreover have "(2::nat) ^ b - 1 < 2 ^ (k + 1)" by (simp add: k)
  ultimately have "bin_digits (2 ^ b - 1) = k + 1" by (rule bin_digits_exact)
  moreover have "nat \<bar>2 ^ b - 1 :: int\<bar> = 2 ^ b - 1"
    by (simp add: nat_diff_distrib nat_power_eq)
  moreover have "(1::int) \<le> 2 ^ b" by simp
  then have "\<not> (2 ^ b - 1 :: int) < 0" by linarith
  ultimately show ?thesis using k by (simp add: len_bin_def)
qed

lemma maxbitlen_hub:
  assumes "0 < b"
  shows "maxbitlen_of ((2 ^ b - 1) # map (\<lambda>j. 2 ^ j) [0..<b]) = b"
proof -
  let ?lens = "set (map (\<lambda>f. len_bin f - 2) ((2 ^ b - 1) # map (\<lambda>j. 2 ^ j) [0..<b]))"
  have "Max ?lens = b"
  proof (rule Max_eqI)
    show "finite ?lens" by simp
    show "b \<in> ?lens" using len_bin_mask [OF assms] by simp
    fix y assume "y \<in> ?lens"
    then consider "y = len_bin (2 ^ b - 1) - 2"
      | j where "j < b" "y = len_bin (2 ^ j) - 2" by auto
    then show "y \<le> b"
    proof cases
      case 1
      then show ?thesis by (simp add: len_bin_mask [OF assms])
    next
      case 2
      then show ?thesis by (simp add: len_bin_power)
    qed
  qed
  then show ?thesis by (simp only: maxbitlen_of_def)
qed

lemma bit_hub_factors:
  assumes "i < b + 1"
  shows "bit (((2 ^ b - 1) # map (\<lambda>j. 2 ^ j) [0..<b]) ! i :: int) j \<longleftrightarrow>
         (i = 0 \<and> j < b) \<or> i = j + 1"
proof (cases i)
  case 0
  have "bit (2 ^ b - 1 :: int) j \<longleftrightarrow> j < b"
    by (simp add: bit_mask_iff flip: mask_eq_exp_minus_1)
  then show ?thesis using 0 by simp
next
  case (Suc i')
  then have "i' < b" using assms by simp
  then have "((2 ^ b - 1) # map (\<lambda>j. 2 ^ j) [0..<b]) ! i = (2 ^ i' :: int)"
    by (simp add: Suc)
  then show ?thesis using Suc by (auto simp: bit_exp_iff)
qed

lemma bit_subsets_hub:
  "bit_subsets (b + 1) ((2 ^ b - 1) # map (\<lambda>j. 2 ^ j) [0..<b]) b =
     map (\<lambda>a. {0, a}) [1..<b + 1] @ [{}]"
proof (rule nth_equalityI)
  show "length (bit_subsets (b + 1) ((2 ^ b - 1) # map (\<lambda>j. 2 ^ j) [0..<b]) b) =
        length (map (\<lambda>a. {0, a}) [1..<b + 1] @ [{} :: nat set])"
    by (simp add: length_bit_subsets)
next
  fix j assume "j < length (bit_subsets (b + 1) ((2 ^ b - 1) # map (\<lambda>j. 2 ^ j) [0..<b]) b)"
  then have j: "j < b + 1" by (simp add: length_bit_subsets)
  let ?factors = "(2 ^ b - 1) # map (\<lambda>j. 2 ^ j) [0..<b] :: int list"
  let ?S = "set (filter (\<lambda>i. bit (?factors ! i) j) [0..<b + 1])"
  have mem: "i \<in> ?S \<longleftrightarrow> i < b + 1 \<and> ((i = 0 \<and> j < b) \<or> i = j + 1)" for i
  proof (cases "i < b + 1")
    case True
    have "i \<in> ?S \<longleftrightarrow> bit (?factors ! i) j"
      using True by (simp only: set_filter set_upt mem_Collect_eq atLeastLessThan_iff) simp
    then show ?thesis using bit_hub_factors [OF True, of j] True by (simp only:) simp
  next
    case False
    have "i \<notin> ?S"
      using False by (simp only: set_filter set_upt mem_Collect_eq atLeastLessThan_iff) simp
    then show ?thesis using False by (simp only:) simp
  qed
  have S: "?S = (if j < b then {0, j + 1} else {})"
  proof (rule set_eqI)
    fix i
    have "i < b + 1 \<and> ((i = 0 \<and> j < b) \<or> i = j + 1) \<longleftrightarrow>
          i \<in> (if j < b then {0, j + 1} else {})"
      using j by (cases "j < b") auto
    then show "i \<in> ?S \<longleftrightarrow> i \<in> (if j < b then {0, j + 1} else {})"
      by (simp only: mem)
  qed
  have T: "(map (\<lambda>a. {0, a}) [1..<b + 1] @ [{}]) ! j = (if j < b then {0, j + 1} else {})"
  proof (cases "j < b")
    case True
    have "(map (\<lambda>a. {0, a}) [1..<b + 1] @ [{}]) ! j = map (\<lambda>a. {0, a}) [1..<b + 1] ! j"
      using True by (simp add: nth_append del: upt_Suc)
    also have "\<dots> = {0, j + 1}" using True by (simp del: upt_Suc)
    finally show ?thesis using True by simp
  next
    case False
    then have jb: "j = b" using j by simp
    have "length (map (\<lambda>a. {0 :: nat, a}) [1..<b + 1]) = b" by simp
    then have "(map (\<lambda>a. {0, a}) [1..<b + 1] @ [{}]) ! b = ({} :: nat set)"
      by (metis nth_append_length)
    then show ?thesis using jb by simp
  qed
  have "bit_subsets (b + 1) ?factors b ! j = ?S"
    using j by (rule bit_subsets_nth)
  then show "bit_subsets (b + 1) ?factors b ! j =
             (map (\<lambda>a. {0, a}) [1..<b + 1] @ [{}]) ! j"
    by (simp only: S T)
qed

lemma lincomb_hub:
  assumes "set_order enum" and "9999999 \<le> b" and "length numbers = b + 1"
  shows "lincomb enum numbers ((2 ^ b - 1) # map (\<lambda>j. 2 ^ j) [0..<b]) adder zero =
         Inl TypeError"
proof -
  let ?factors = "(2 ^ b - 1) # map (\<lambda>j. 2 ^ j) [0..<b] :: int list"
  have b: "0 < b" using assms(2) by simp
  have mb: "maxbitlen_of ?factors = b" using b by (rule maxbitlen_hub)
  have len: "\<not> length ?factors < length numbers" using assms(3) by simp
  have "multisubset enum numbers (map (\<lambda>a. {0, a}) [1..<b + 1] @ [{}]) adder zero = Inr None"
    using assms(1) by (rule multisubset_hub_range) (use assms(2,3) in simp_all)
  then have ms: "multisubset enum numbers (bit_subsets (length numbers) ?factors b) adder zero =
                 Inr None"
    by (simp only: assms(3) bit_subsets_hub)
  have "lincomb_counted enum numbers ?factors adder zero = Inl TypeError"
    using len by (simp add: lincomb_counted_def mb ms Let_def del: upt_Suc)
  then show ?thesis by (simp add: lincomb_def)
qed

section \<open>Claims about the two solvers\<close>

text \<open>
  C1. For every elements list, every list of subsets with valid indices and every
  associative commutative adder with identity zero, \<^verbatim>\<open>multisubset\<close> is to return, for each
  subset, the adder-fold of the original elements at its indices. The code computes that
  wherever a round reaches its exit branch (\<open>multisubset_sums\<close>), but not on the empty
  elements list. For one empty subset the adder-fold is \<open>[0]\<close>; the exit branch would
  return it and \<^verbatim>\<open>multisubset2\<close> does return it, but \<^verbatim>\<open>multisubset\<close> evaluates
  \<^verbatim>\<open>math.log(0)\<close> in its cutoff expression before the exit test and raises
  \<^verbatim>\<open>ValueError\<close>.
\<close>

theorem multisubset_empty_list_evaluated:
  "multisubset sorted_list_of_set ([] :: int list) [{}] (+) 0 = Inl ValueError \<and>
   map (subset_sum (+) 0 ([] :: int list)) [{}] = [0]"
  by (simp add: multisubset_def rounds.simps subset_sum_def adder_fold_def)

text \<open>
  C3. \<^verbatim>\<open>multisubset2\<close> has the postcondition of \<^verbatim>\<open>multisubset\<close> on every input with
  valid indices (\<open>multisubset2_valid_sums\<close>), so the two solvers are to return equal lists
  on identical inputs. On the empty elements list they do not: for one empty subset
  \<^verbatim>\<open>multisubset2\<close> returns \<open>[0]\<close> and \<^verbatim>\<open>multisubset\<close> raises \<^verbatim>\<open>ValueError\<close> from
  \<^verbatim>\<open>math.log(0)\<close>.
\<close>

theorem solvers_differ_on_empty_list_evaluated:
  "multisubset2 ([] :: int list) [{}] (+) 0 = Inr [0] \<and>
   multisubset sorted_list_of_set ([] :: int list) [{}] (+) 0 = Inl ValueError"
  by (simp add: multisubset2_def int_log_Suc_Suc_0 pad_numbers_1 power_sets_of_def
      new_power_set_of_def index_in_power_set_of_def multisubset_def rounds.simps)

text \<open>
  C8. For a non-empty elements list and valid indices, a subset that is the empty set is to
  yield the sum \<open>zero\<close> in both solvers. \<^verbatim>\<open>multisubset2\<close> returns it on every such input
  (\<open>multisubset2_valid_sums\<close>) and \<^verbatim>\<open>multisubset\<close> wherever a round reaches its exit
  branch (\<open>multisubset_sums\<close>). On 10000000 elements, all 1, with the 9999999 subsets
  \<open>{0, 1}, {0, 2}, \<dots>, {0, 9999999}\<close> and one empty subset, every round of
  \<^verbatim>\<open>multisubset\<close> merges one pair and deletes one subset; after 9999999 rounds the
  range of the loop is exhausted and the function returns \<^verbatim>\<open>None\<close>, so the empty subset
  gets no sum at all. \<^verbatim>\<open>multisubset2\<close> returns 2 for each pair and 0 for the empty
  subset.
\<close>

theorem empty_subset_round_cap_evaluated:
  "multisubset sorted_list_of_set (replicate 10000000 (1 :: int))
     (map (\<lambda>a. {0, a}) [1..<10000000] @ [{}]) (+) 0 = Inr None \<and>
   multisubset2 (replicate 10000000 (1 :: int))
     (map (\<lambda>a. {0, a}) [1..<10000000] @ [{}]) (+) 0 = Inr (replicate 9999999 2 @ [0])"
proof
  show "multisubset sorted_list_of_set (replicate 10000000 (1 :: int))
     (map (\<lambda>a. {0, a}) [1..<10000000] @ [{}]) (+) 0 = Inr None"
    by (rule multisubset_hub_range [OF set_order_sorted]) simp_all
  have e: "(9999999 :: nat) + 1 = 10000000" by simp
  show "multisubset2 (replicate 10000000 (1 :: int))
     (map (\<lambda>a. {0, a}) [1..<10000000] @ [{}]) (+) 0 = Inr (replicate 9999999 2 @ [0])"
    using multisubset2_hub_ones [of 9999999] by (simp only: e)
qed

text \<open>
  C10. For the empty elements list \<^verbatim>\<open>multisubset\<close> raises the math domain error of
  \<^verbatim>\<open>math.log(0)\<close>, a \<^verbatim>\<open>ValueError\<close>, whatever the subsets are: an empty list of subsets
  and a list of empty subsets included.
\<close>

theorem multisubset_empty_numbers_raises:
  "multisubset enum [] subsets adder zero = Inl ValueError"
  by (simp add: multisubset_def rounds.simps)

text \<open>
  C5 as stated fails for both solvers. \<^verbatim>\<open>multisubset2\<close> only asks whether the positions
  of its partitions are in a subset, so the index 100 is never read: on elements
  \<open>[1, 2, 3]\<close> and the subset \<open>{0, 100}\<close> it returns \<open>[1]\<close>. \<^verbatim>\<open>multisubset\<close> on elements
  \<open>[1, 2, 3]\<close> and the subsets \<open>{0, 1}\<close>, \<open>{3}\<close> appends the sum of the pair at index 3 and
  then reads it for the second subset: it returns \<open>[3, 3]\<close>.
\<close>

theorem invalid_index_counterexample:
  "multisubset2 [1, 2, 3 :: int] [{0, 100}] (+) 0 = Inr [1] \<and>
   multisubset sorted_list_of_set [1, 2, 3 :: int] [{0, 1}, {3}] (+) 0 = Inr (Some [3, 3])"
proof
  show "multisubset2 [1, 2, 3 :: int] [{0, 100}] (+) 0 = Inr [1]"
    by (simp add: multisubset2_def int_log_Suc_Suc_0 pad_numbers_1 power_sets_of_def
        new_power_set_of_def index_in_power_set_of_def)
  show "multisubset sorted_list_of_set [1, 2, 3 :: int] [{0, 1}, {3}] (+) 0 = Inr (Some [3, 3])"
    by (simp add: multisubset_def rounds.simps cutoff_3 cutoff_4 pairs_by_count_of_def
        count_pairs_def count_subset_def Let_def)
qed

text \<open>
  C5, as the code has it. For every input in which some subset contains an index at or
  beyond the length of the elements plus the number of indices in all subsets (non-empty
  elements, finite subsets with fewer than 9999999 indices in all), \<^verbatim>\<open>multisubset\<close> raises
  \<^verbatim>\<open>IndexError\<close> and returns nothing; \<^verbatim>\<open>multisubset2\<close> does not fail: it returns for each
  subset the adder-fold over its indices that are in range.
\<close>

theorem invalid_index_behaviour:
  assumes "group_adder adder zero" and "set_order enum" and "numbers \<noteq> []"
    and "\<forall>S \<in> set subsets. finite S"
    and "sum_list (map card subsets) < 9999999"
    and "\<exists>S \<in> set subsets. \<exists>i \<in> S. length numbers + sum_list (map card subsets) \<le> i"
  shows "multisubset enum numbers subsets adder zero = Inl IndexError \<and>
         multisubset2 numbers subsets adder zero =
           Inr (map (\<lambda>sub. subset_sum adder zero numbers (sub \<inter> {..<length numbers})) subsets)"
proof -
  obtain S i where "S \<in> set subsets" "i \<in> S" "length numbers + sum_list (map card subsets) \<le> i"
    using assms(6) by (elim bexE)
  with assms(2-5) have "multisubset enum numbers subsets adder zero = Inl IndexError"
    by (rule multisubset_raises)
  moreover have "multisubset2 numbers subsets adder zero =
           Inr (map (\<lambda>sub. subset_sum adder zero numbers (sub \<inter> {..<length numbers})) subsets)"
    using assms(1) by (rule multisubset2_sums)
  ultimately show ?thesis by simp
qed

theorem invalid_index_behaviour_witness:
  "multisubset sorted_list_of_set [1, 2, 3 :: int] [{0, 100}] (+) 0 = Inl IndexError \<and>
   multisubset2 [1, 2, 3 :: int] [{0, 100}] (+) 0 = Inr [1]"
proof -
  have "[1, 2, 3 :: int] \<noteq> []" by simp
  moreover have "\<forall>S \<in> set [{0, 100 :: nat}]. finite S" by simp
  moreover have "sum_list (map card [{0, 100 :: nat}]) < 9999999" by simp
  moreover have "\<exists>S \<in> set [{0, 100 :: nat}]. \<exists>i \<in> S.
      length [1, 2, 3 :: int] + sum_list (map card [{0, 100 :: nat}]) \<le> i" by simp
  ultimately have "multisubset sorted_list_of_set [1, 2, 3 :: int] [{0, 100}] (+) 0 = Inl IndexError \<and>
         multisubset2 [1, 2, 3 :: int] [{0, 100}] (+) 0 =
           Inr (map (\<lambda>sub. subset_sum (+) 0 [1, 2, 3 :: int] (sub \<inter> {..<length [1, 2, 3 :: int]}))
                  [{0, 100}])"
    by (rule invalid_index_behaviour [OF group_adder_int set_order_sorted])
  moreover have "{0, 100} \<inter> {..<3 :: nat} = {0}" by auto
  ultimately show ?thesis by (simp add: subset_sum_def adder_fold_def)
qed

section \<open>Claims about \<^verbatim>\<open>lincomb\<close>\<close>

text \<open>
  C2. For elements and non-negative factors of equal length, at least one factor,
  \<^verbatim>\<open>lincomb\<close> is to return the weighted sum: the fold of each \<open>elements[i]\<close> added to
  itself \<open>factors[i]\<close> times. It does wherever \<^verbatim>\<open>multisubset\<close> returns within its rounds
  (\<open>lincomb_nonneg\<close>). On 10000000 elements, all 1, with the factors
  \<open>2^9999999 - 1, 1, 2, 4, \<dots>, 2^9999998\<close>, \<^verbatim>\<open>maxbitlen\<close> is 9999999 and the bit subsets
  are \<open>{0, 1}, {0, 2}, \<dots>, {0, 9999999}\<close> and one empty subset. \<^verbatim>\<open>multisubset\<close> uses
  up its 9999999 rounds on them and returns \<^verbatim>\<open>None\<close>, and \<^verbatim>\<open>lincomb\<close> raises
  \<^verbatim>\<open>TypeError\<close> at \<^verbatim>\<open>subset_sums[i]\<close> instead of returning the weighted sum.
\<close>

theorem lincomb_round_cap_evaluated:
  "maxbitlen_of ((2 ^ 9999999 - 1) # map (\<lambda>j. 2 ^ j) [0..<9999999]) = 9999999 \<and>
   bit_subsets 10000000 ((2 ^ 9999999 - 1) # map (\<lambda>j. 2 ^ j) [0..<9999999]) 9999999 =
     map (\<lambda>a. {0, a}) [1..<10000000] @ [{}] \<and>
   lincomb sorted_list_of_set (replicate 10000000 (1 :: int))
     ((2 ^ 9999999 - 1) # map (\<lambda>j. 2 ^ j) [0..<9999999]) (+) 0 = Inl TypeError"
proof (intro conjI)
  have e: "(9999999 :: nat) + 1 = 10000000" by simp
  show "maxbitlen_of ((2 ^ 9999999 - 1) # map (\<lambda>j. 2 ^ j) [0..<9999999]) = 9999999"
    by (rule maxbitlen_hub) simp
  show "bit_subsets 10000000 ((2 ^ 9999999 - 1) # map (\<lambda>j. 2 ^ j) [0..<9999999]) 9999999 =
     map (\<lambda>a. {0, a}) [1..<10000000] @ [{}]"
    using bit_subsets_hub [of 9999999] by (simp only: e)
  show "lincomb sorted_list_of_set (replicate 10000000 (1 :: int))
     ((2 ^ 9999999 - 1) # map (\<lambda>j. 2 ^ j) [0..<9999999]) (+) 0 = Inl TypeError"
  proof (rule lincomb_hub [OF set_order_sorted])
    show "(9999999 :: nat) \<le> 9999999" by simp
    show "length (replicate 10000000 (1 :: int)) = 9999999 + 1" by simp
  qed
qed

text \<open>
  C4. With \<open>B\<close> the maximum bit length (\<^verbatim>\<open>maxbitlen\<close>), the recombination loop runs over
  \<open>B + 1\<close> subsets and calls the adder twice for each: \<open>2 * (B + 1)\<close> calls, as
  \<open>lincomb_counted_value\<close> shows, not the \<open>2 * B\<close> of the claim and of the source's own
  comment. On elements \<open>[1]\<close> and factors \<open>[1]\<close>, \<open>B = 1\<close> and the loop makes 4 calls.
\<close>

theorem recombination_calls_evaluated:
  "lincomb_counted sorted_list_of_set [1 :: int] [1] (+) 0 = Inr (1, 4) \<and>
   2 * maxbitlen_of [1] = 2"
  by (simp add: lincomb_counted_def maxbitlen_of_def len_bin_def bin_digits.simps
      bit_subsets_def multisubset_def rounds.simps int_log_def pairs_by_count_of_def)

text \<open>
  C6 as stated fails: \<^verbatim>\<open>lincomb\<close> has no check of the sign. On elements \<open>[1]\<close> and
  factors \<open>[-1]\<close> it returns 7.
\<close>

theorem lincomb_negative_factor_counterexample:
  "lincomb sorted_list_of_set [1 :: int] [-1] (+) 0 = Inr 7"
  by (simp add: lincomb_def lincomb_counted_def maxbitlen_of_def len_bin_def bin_digits.simps
      bit_subsets_def multisubset_def rounds.simps int_log_def pairs_by_count_of_def)

text \<open>
  C6, as the code has it. For every input to \<^verbatim>\<open>lincomb\<close> in which some factor is negative
  (lists of equal length, within the cap on the rounds, an adder of the spec's kind) the
  call returns a value: the weighted sum in which each factor \<open>f\<close> is replaced by
  \<open>f mod 2 ^ (maxbitlen + 1)\<close>, its low \<open>maxbitlen + 1\<close> bits in two's complement.
\<close>

theorem lincomb_negative_factors:
  assumes "group_adder adder zero" and "set_order enum"
    and "length numbers = length factors"
    and "\<exists>f \<in> set factors. f < 0"
    and "length numbers * (maxbitlen_of factors + 1) < 9999999"
  shows "lincomb enum numbers factors adder zero =
         Inr (weighted_sum adder zero numbers
                (map (\<lambda>f. f mod 2 ^ (maxbitlen_of factors + 1)) factors))"
proof -
  have "factors \<noteq> []" using assms(4) by auto
  then have "numbers \<noteq> []" using assms(3) by auto
  moreover have "length numbers \<le> length factors" using assms(3) by simp
  ultimately show ?thesis using assms(1,2,5) by (intro lincomb_value)
qed

theorem lincomb_negative_factors_witness:
  "lincomb sorted_list_of_set [1 :: int] [-1] (+) 0 = Inr 7"
proof -
  have "length [1 :: int] = length [-1 :: int]" by simp
  moreover have "\<exists>f \<in> set [-1 :: int]. f < 0" by simp
  moreover have "length [1 :: int] * (maxbitlen_of [-1] + 1) < 9999999"
    by (simp add: maxbitlen_of_eval)
  ultimately have "lincomb sorted_list_of_set [1 :: int] [-1] (+) 0 =
      Inr (weighted_sum (+) 0 [1 :: int] (map (\<lambda>f. f mod 2 ^ (maxbitlen_of [-1] + 1)) [-1]))"
    by (rule lincomb_negative_factors [OF group_adder_int set_order_sorted])
  then show ?thesis
    by (simp add: weighted_sum_def adder_fold_def repeat_add_int maxbitlen_of_eval)
qed




end
